theory Spec2Isabelle
  imports Main
begin

section \<open>Data model of the focus command\<close>

text \<open>
  The command \<^verbatim>\<open>workspaces focus\<close> (file
  \<^verbatim>\<open>plugin-workspace-tools/sources/commands/focus.ts\<close>) works on objects that
  are shared by reference: one \<^verbatim>\<open>Workspace\<close> object is reachable from the ordered
  list \<^verbatim>\<open>project.workspaces\<close>, from the two indexes, from the set
  \<^verbatim>\<open>requiredWorkspaces\<close> and from the array \<^verbatim>\<open>evictions\<close>, and its manifest is
  cleared in place. The model therefore keeps an explicit heap: a workspace is a
  reference, and the heap maps a reference to the object's fields. Every reference
  denotes an object (JavaScript has no dangling reference), so the heap is total.
  Reference equality (\<^verbatim>\<open>===\<close>, \<^verbatim>\<open>Set.has\<close>, \<^verbatim>\<open>indexOf\<close>) is equality of
  references.
\<close>

type_synonym wsref = nat
type_synonym identHash = string
type_synonym path = string

record descriptor =
  desc_identHash :: identHash
  desc_range :: string

text \<open>
  A dependency scope is a \<^verbatim>\<open>Map<IdentHash, Descriptor>\<close>: an insertion-ordered
  association list. \<^verbatim>\<open>clear()\<close> leaves the empty list.
\<close>

type_synonym scope = "(identHash \<times> descriptor) list"

record manifest =
  dependencies :: scope
  devDependencies :: scope
  peerDependencies :: scope

record workspace =
  cwd :: path
  locator_identHash :: identHash
  manifest :: manifest

text \<open>
  The program state: the four fields of \<^verbatim>\<open>project\<close> that the command reads or
  writes, the heap of workspace objects, and the two local collections of
  \<^verbatim>\<open>execute\<close>. The set \<^verbatim>\<open>requiredWorkspaces\<close> is a JavaScript \<^verbatim>\<open>Set\<close>: its
  elements in insertion order, without repetition.
\<close>

record state =
  workspaces :: "wsref list"
  workspacesByCwd :: "(path \<times> wsref) list"
  workspacesByIdent :: "(identHash \<times> wsref) list"
  topLevelWorkspace :: wsref
  heap :: "wsref \<Rightarrow> workspace"
  requiredWorkspaces :: "wsref list"
  evictions :: "wsref list"

datatype dependencyType = Dependencies | DevDependencies | PeerDependencies

datatype error =
    WorkspaceRequiredError
  | UnknownWorkspace identHash
  | InstallFailure string

datatype event = InstallCall bool | PersistInstallStateFile

text \<open>The options of the command; \<^verbatim>\<open>this.workspaces\<close> is the list of names.\<close>

record command =
  cmd_workspaces :: "string list"
  json :: bool
  production :: bool
  all :: bool

text \<open>
  What the command consumes from outside the file: the parser of a workspace name, the
  outcome of the install routine on a project (\<open>None\<close> when it succeeds, the error
  it raises otherwise) given the flag \<^verbatim>\<open>persistProject\<close>, and the exit code of the
  report.
\<close>

record externals =
  parseIdent :: "string \<Rightarrow> identHash"
  install :: "state \<Rightarrow> bool \<Rightarrow> string option"
  exitCode :: int

section \<open>JavaScript collections\<close>

text \<open>\<^verbatim>\<open>Set.add\<close>: a new element goes to the end, a present one changes nothing.\<close>

definition set_add :: "'a list \<Rightarrow> 'a \<Rightarrow> 'a list" where
  "set_add xs x = (if x \<in> set xs then xs else xs @ [x])"

text \<open>\<^verbatim>\<open>new Set(iterable)\<close> adds the elements one by one.\<close>

definition new_Set :: "'a list \<Rightarrow> 'a list" where
  "new_Set xs = foldl set_add [] xs"

text \<open>\<^verbatim>\<open>Map.delete(key)\<close> on an association list.\<close>

definition map_delete :: "'k \<Rightarrow> ('k \<times> 'v) list \<Rightarrow> ('k \<times> 'v) list" where
  "map_delete k m = filter (\<lambda>e. fst e \<noteq> k) m"

text \<open>\<^verbatim>\<open>Map.values()\<close>.\<close>

definition map_values :: "('k \<times> 'v) list \<Rightarrow> 'v list" where
  "map_values m = map snd m"

text \<open>\<^verbatim>\<open>Array.indexOf\<close>: the first position of the element, or \<open>-1\<close>.\<close>

fun indexOf :: "'a list \<Rightarrow> 'a \<Rightarrow> int" where
  "indexOf [] x = - 1"
| "indexOf (y # ys) x =
     (if y = x then 0
      else (let r = indexOf ys x in if r < 0 then - 1 else r + 1))"

text \<open>
  \<^verbatim>\<open>Array.splice(start, 1)\<close>: a negative start counts from the end (so \<open>-1\<close> removes
  the last element), a start beyond the end removes nothing.
\<close>

definition splice1 :: "'a list \<Rightarrow> int \<Rightarrow> 'a list" where
  "splice1 xs start =
     (let len = int (length xs);
          k = (if start < 0 then max (len + start) 0 else min start len)
      in take (nat k) xs @ drop (Suc (nat k)) xs)"

section \<open>Collaborators of the command\<close>

text \<open>
  Modelled from the spec: \<^verbatim>\<open>Manifest.hardDependencies\<close> of the core package
  (\<^verbatim>\<open>@yarnpkg/core\<close>), which the command imports. The spec fixes the hard
  dependency scopes as \<^verbatim>\<open>dependencies\<close> and \<^verbatim>\<open>devDependencies\<close>, not
  \<^verbatim>\<open>peerDependencies\<close>.
\<close>

definition hardDependencies :: "dependencyType list" where
  "hardDependencies = [Dependencies, DevDependencies]"

text \<open>
  Modelled from the spec: \<^verbatim>\<open>Manifest.getForScope\<close> of the core package. A manifest
  holds, for each dependency scope, a mapping from package identity to descriptor.
\<close>

fun getForScope :: "manifest \<Rightarrow> dependencyType \<Rightarrow> scope" where
  "getForScope m Dependencies = dependencies m"
| "getForScope m DevDependencies = devDependencies m"
| "getForScope m PeerDependencies = peerDependencies m"

text \<open>
  Modelled from the spec: \<^verbatim>\<open>Project.tryWorkspaceByDescriptor\<close> of the core package.
  The spec resolves the descriptor's package identity against the project's workspace
  index: the result is the workspace of that identity, or nothing when the dependency is
  an external package.
\<close>

definition tryWorkspaceByDescriptor :: "state \<Rightarrow> descriptor \<Rightarrow> wsref option" where
  "tryWorkspaceByDescriptor s d = map_of (workspacesByIdent s) (desc_identHash d)"

text \<open>
  Modelled from the spec: \<^verbatim>\<open>Project.getWorkspaceByIdent\<close> of the core package. A
  name that does not resolve fails with \<open>UnknownWorkspace\<close>.
\<close>

definition getWorkspaceByIdent :: "state \<Rightarrow> identHash \<Rightarrow> error + wsref" where
  "getWorkspaceByIdent s i =
     (case map_of (workspacesByIdent s) i of
        None \<Rightarrow> Inl (UnknownWorkspace i)
      | Some w \<Rightarrow> Inr w)"

section \<open>Seed selection (lines 48 to 60)\<close>

text \<open>
  \<^verbatim>\<open>this.workspaces.map(name => project.getWorkspaceByIdent(parseIdent(name)))\<close>:
  the first name that does not resolve throws.
\<close>

fun resolve_names :: "externals \<Rightarrow> state \<Rightarrow> string list \<Rightarrow> error + wsref list" where
  "resolve_names ext s [] = Inr []"
| "resolve_names ext s (name # names) =
     (case getWorkspaceByIdent s (parseIdent ext name) of
        Inl e \<Rightarrow> Inl e
      | Inr w \<Rightarrow>
          (case resolve_names ext s names of
             Inl e \<Rightarrow> Inl e
           | Inr ws \<Rightarrow> Inr (w # ws)))"

text \<open>
  The argument \<open>active\<close> is the \<^verbatim>\<open>workspace\<close> that \<^verbatim>\<open>Project.find\<close> returns for
  the current directory, \<open>None\<close> for \<^verbatim>\<open>null\<close>.
\<close>

definition select_seed ::
  "externals \<Rightarrow> command \<Rightarrow> wsref option \<Rightarrow> state \<Rightarrow> error + wsref list" where
  "select_seed ext cmd active s =
     (if all cmd then Inr (new_Set (workspaces s))
      else if length (cmd_workspaces cmd) = 0 then
        (case active of
           None \<Rightarrow> Inl WorkspaceRequiredError
         | Some w \<Rightarrow> Inr (new_Set [w]))
      else
        (case resolve_names ext s (cmd_workspaces cmd) of
           Inl e \<Rightarrow> Inl e
         | Inr ws \<Rightarrow> Inr (new_Set ws)))"

section \<open>The closure loop (lines 68 to 79)\<close>

text \<open>The body of the innermost loop, for one descriptor.\<close>

definition scan_descriptor :: "state \<Rightarrow> descriptor \<Rightarrow> state" where
  "scan_descriptor s d =
     (case tryWorkspaceByDescriptor s d of
        None \<Rightarrow> s
      | Some matchingWorkspace \<Rightarrow>
          s\<lparr>requiredWorkspaces := set_add (requiredWorkspaces s) matchingWorkspace\<rparr>)"

text \<open>The loop over the descriptors of one scope of the workspace \<open>w\<close>.\<close>

definition scan_scope :: "wsref \<Rightarrow> state \<Rightarrow> dependencyType \<Rightarrow> state" where
  "scan_scope w s t =
     foldl scan_descriptor s (map_values (getForScope (manifest (heap s w)) t))"

text \<open>The loop over the hard dependency scopes of the workspace \<open>w\<close>.\<close>

definition scan_workspace :: "state \<Rightarrow> wsref \<Rightarrow> state" where
  "scan_workspace s w = foldl (scan_scope w) s hardDependencies"

text \<open>
  The termination measure of the outer loop: the workspaces of the identity index not
  yet required, plus the required workspaces not yet scanned.
\<close>

definition closure_measure :: "state \<times> nat \<Rightarrow> nat" where
  "closure_measure = (\<lambda>(s, i).
     card (snd ` set (workspacesByIdent s) - set (requiredWorkspaces s))
       + length (requiredWorkspaces s) - i)"

lemma scan_descriptor_index [simp]:
  "workspacesByIdent (scan_descriptor s d) = workspacesByIdent s"
  by (simp add: scan_descriptor_def split: option.splits)

lemma scan_descriptor_heap [simp]: "heap (scan_descriptor s d) = heap s"
  by (simp add: scan_descriptor_def split: option.splits)

lemma card_diff_set_add:
  assumes "finite R" and "m \<in> R"
  shows "card (R - set (set_add xs m)) + length (set_add xs m) = card (R - set xs) + length xs"
proof (cases "m \<in> set xs")
  case True
  then show ?thesis by (simp add: set_add_def)
next
  case False
  with assms have "m \<in> R - set xs" by simp
  moreover have "R - set (xs @ [m]) = (R - set xs) - {m}" by auto
  moreover have "finite (R - set xs)" using assms by simp
  ultimately have "card (R - set (xs @ [m])) = card (R - set xs) - 1"
    by (metis card_Diff_singleton)
  moreover have "0 < card (R - set xs)"
    using \<open>m \<in> R - set xs\<close> \<open>finite (R - set xs)\<close> by (auto simp: card_gt_0_iff)
  ultimately show ?thesis using False by (simp add: set_add_def)
qed

lemma scan_descriptor_measure:
  "card (snd ` set (workspacesByIdent s) - set (requiredWorkspaces (scan_descriptor s d)))
     + length (requiredWorkspaces (scan_descriptor s d))
   = card (snd ` set (workspacesByIdent s) - set (requiredWorkspaces s))
     + length (requiredWorkspaces s)"
proof (cases "tryWorkspaceByDescriptor s d")
  case None
  then show ?thesis by (simp add: scan_descriptor_def)
next
  case (Some m)
  then have "m \<in> snd ` set (workspacesByIdent s)"
    unfolding tryWorkspaceByDescriptor_def by (force dest: map_of_SomeD)
  then show ?thesis
    using Some card_diff_set_add [of "snd ` set (workspacesByIdent s)" m "requiredWorkspaces s"]
    by (simp add: scan_descriptor_def)
qed

lemma foldl_scan_descriptor_index [simp]:
  "workspacesByIdent (foldl scan_descriptor s ds) = workspacesByIdent s"
  by (induction ds arbitrary: s) simp_all

lemma foldl_scan_descriptor_heap [simp]: "heap (foldl scan_descriptor s ds) = heap s"
  by (induction ds arbitrary: s) simp_all

lemma foldl_scan_descriptor_measure:
  "card (snd ` set (workspacesByIdent s) - set (requiredWorkspaces (foldl scan_descriptor s ds)))
     + length (requiredWorkspaces (foldl scan_descriptor s ds))
   = card (snd ` set (workspacesByIdent s) - set (requiredWorkspaces s))
     + length (requiredWorkspaces s)"
proof (induction ds arbitrary: s)
  case Nil
  then show ?case by simp
next
  case (Cons d ds)
  from Cons.IH [of "scan_descriptor s d"] scan_descriptor_measure [of s d]
  show ?case by simp
qed

lemma scan_scope_index [simp]: "workspacesByIdent (scan_scope w s t) = workspacesByIdent s"
  by (simp add: scan_scope_def)

lemma scan_scope_heap [simp]: "heap (scan_scope w s t) = heap s"
  by (simp add: scan_scope_def)

lemma scan_scope_measure:
  "card (snd ` set (workspacesByIdent s) - set (requiredWorkspaces (scan_scope w s t)))
     + length (requiredWorkspaces (scan_scope w s t))
   = card (snd ` set (workspacesByIdent s) - set (requiredWorkspaces s))
     + length (requiredWorkspaces s)"
  unfolding scan_scope_def by (rule foldl_scan_descriptor_measure)

lemma foldl_scan_scope_index [simp]:
  "workspacesByIdent (foldl (scan_scope w) s ts) = workspacesByIdent s"
  by (induction ts arbitrary: s) simp_all

lemma foldl_scan_scope_heap [simp]: "heap (foldl (scan_scope w) s ts) = heap s"
  by (induction ts arbitrary: s) simp_all

lemma foldl_scan_scope_measure:
  "card (snd ` set (workspacesByIdent s) - set (requiredWorkspaces (foldl (scan_scope w) s ts)))
     + length (requiredWorkspaces (foldl (scan_scope w) s ts))
   = card (snd ` set (workspacesByIdent s) - set (requiredWorkspaces s))
     + length (requiredWorkspaces s)"
proof (induction ts arbitrary: s)
  case Nil
  then show ?case by simp
next
  case (Cons t ts)
  from Cons.IH [of "scan_scope w s t"] scan_scope_measure [of s w t]
  show ?case by simp
qed

lemma scan_workspace_index [simp]:
  "workspacesByIdent (scan_workspace s w) = workspacesByIdent s"
  by (simp add: scan_workspace_def)

lemma scan_workspace_heap [simp]: "heap (scan_workspace s w) = heap s"
  by (simp add: scan_workspace_def)

lemma scan_workspace_measure:
  "card (snd ` set (workspacesByIdent s) - set (requiredWorkspaces (scan_workspace s w)))
     + length (requiredWorkspaces (scan_workspace s w))
   = card (snd ` set (workspacesByIdent s) - set (requiredWorkspaces s))
     + length (requiredWorkspaces s)"
  unfolding scan_workspace_def by (rule foldl_scan_scope_measure)

text \<open>
  \<^verbatim>\<open>for (const workspace of requiredWorkspaces)\<close>: the iterator of a \<^verbatim>\<open>Set\<close> walks
  the elements in insertion order and reaches the ones added during the walk. The
  position \<open>i\<close> is the iterator's.
\<close>

function closure_loop :: "state \<Rightarrow> nat \<Rightarrow> state" where
  "closure_loop s i =
     (if i < length (requiredWorkspaces s)
      then closure_loop (scan_workspace s (requiredWorkspaces s ! i)) (Suc i)
      else s)"
  by pat_completeness auto
termination
proof (relation "measure closure_measure")
  show "wf (measure closure_measure)" by simp
next
  fix s :: state and i :: nat
  assume "i < length (requiredWorkspaces s)"
  then show "((scan_workspace s (requiredWorkspaces s ! i), Suc i), (s, i))
      \<in> measure closure_measure"
    using scan_workspace_measure [of s "requiredWorkspaces s ! i"]
    by (simp add: closure_measure_def)
qed

declare closure_loop.simps [simp del]

text \<open>
  The sequence of workspaces whose edges the loop scans: the same walk, recording the
  workspace of each round instead of the state.
\<close>

function closure_scans :: "state \<Rightarrow> nat \<Rightarrow> wsref list" where
  "closure_scans s i =
     (if i < length (requiredWorkspaces s)
      then (requiredWorkspaces s ! i)
             # closure_scans (scan_workspace s (requiredWorkspaces s ! i)) (Suc i)
      else [])"
  by pat_completeness auto
termination
proof (relation "measure closure_measure")
  show "wf (measure closure_measure)" by simp
next
  fix s :: state and i :: nat
  assume "i < length (requiredWorkspaces s)"
  then show "((scan_workspace s (requiredWorkspaces s ! i), Suc i), (s, i))
      \<in> measure closure_measure"
    using scan_workspace_measure [of s "requiredWorkspaces s ! i"]
    by (simp add: closure_measure_def)
qed

declare closure_scans.simps [simp del]

section \<open>Eviction (lines 84 to 105)\<close>

text \<open>A write to the manifest of the workspace object \<open>w\<close>.\<close>

definition update_manifest :: "(manifest \<Rightarrow> manifest) \<Rightarrow> wsref \<Rightarrow> state \<Rightarrow> state" where
  "update_manifest f w s =
     s\<lparr>heap := (heap s)(w := (heap s w)\<lparr>manifest := f (manifest (heap s w))\<rparr>)\<rparr>"

text \<open>The body of the first loop, for one workspace of \<^verbatim>\<open>project.workspaces\<close>.\<close>

definition mutation_step :: "bool \<Rightarrow> state \<Rightarrow> wsref \<Rightarrow> state" where
  "mutation_step pr s w =
     (if w \<in> set (requiredWorkspaces s) then
        (if pr then update_manifest (\<lambda>m. m\<lparr>devDependencies := []\<rparr>) w s else s)
      else
        (let s1 = update_manifest (\<lambda>m. m\<lparr>dependencies := []\<rparr>) w s;
             s2 = update_manifest (\<lambda>m. m\<lparr>devDependencies := []\<rparr>) w s1;
             s3 = update_manifest (\<lambda>m. m\<lparr>peerDependencies := []\<rparr>) w s2
         in if topLevelWorkspace s3 \<noteq> w then s3\<lparr>evictions := evictions s3 @ [w]\<rparr> else s3))"

text \<open>
  \<^verbatim>\<open>const evictions = new Array()\<close>, then the loop over \<^verbatim>\<open>project.workspaces\<close>,
  which this loop does not change.
\<close>

definition mutation_pass :: "bool \<Rightarrow> state \<Rightarrow> state" where
  "mutation_pass pr s = foldl (mutation_step pr) (s\<lparr>evictions := []\<rparr>) (workspaces s)"

text \<open>The body of the second loop, for one evicted workspace.\<close>

definition removal_step :: "state \<Rightarrow> wsref \<Rightarrow> state" where
  "removal_step s e =
     s\<lparr>workspacesByCwd := map_delete (cwd (heap s e)) (workspacesByCwd s),
        workspacesByIdent := map_delete (locator_identHash (heap s e)) (workspacesByIdent s),
        workspaces := splice1 (workspaces s) (indexOf (workspaces s) e)\<rparr>"

definition removal_pass :: "state \<Rightarrow> state" where
  "removal_pass s = foldl removal_step s (evictions s)"

definition evict :: "bool \<Rightarrow> state \<Rightarrow> state" where
  "evict pr s = removal_pass (mutation_pass pr s)"

section \<open>The install and the whole command (lines 111 to 122)\<close>

text \<open>
  The callback handed to \<^verbatim>\<open>StreamReport.start\<close>, with the calls it makes in order. A
  failing \<^verbatim>\<open>project.install\<close> rejects the callback with the error it raised, before
  \<^verbatim>\<open>persistInstallStateFile\<close> is reached.
\<close>

definition install_callback :: "externals \<Rightarrow> state \<Rightarrow> (error + unit) \<times> event list" where
  "install_callback ext s =
     (case install ext s False of
        Some e \<Rightarrow> (Inl (InstallFailure e), [InstallCall False])
      | None \<Rightarrow> (Inr (), [InstallCall False, PersistInstallStateFile]))"

text \<open>
  Modelled from the spec: \<^verbatim>\<open>StreamReport.start\<close> of the core package, followed by
  \<^verbatim>\<open>report.exitCode()\<close>. The spec treats the install as one awaited unit of work with
  one outcome: the callback runs once, its failure reaches the caller as it is, and on
  success the result is the exit code of the report.
\<close>

definition StreamReport_start ::
  "externals \<Rightarrow> (state \<Rightarrow> (error + unit) \<times> event list) \<Rightarrow> state
     \<Rightarrow> (error + int) \<times> event list" where
  "StreamReport_start ext callback s =
     (case callback s of
        (Inl e, tr) \<Rightarrow> (Inl e, tr)
      | (Inr u, tr) \<Rightarrow> (Inr (exitCode ext), tr))"

text \<open>
  The method \<^verbatim>\<open>execute\<close>. Its result is the outcome, the program state at the end,
  and the calls made to the install routine and to the install-state persistence. A
  failing seed selection throws before any later statement runs.
\<close>

definition execute ::
  "externals \<Rightarrow> command \<Rightarrow> wsref option \<Rightarrow> state \<Rightarrow> (error + int) \<times> state \<times> event list" where
  "execute ext cmd active s =
     (case select_seed ext cmd active s of
        Inl e \<Rightarrow> (Inl e, s, [])
      | Inr seed \<Rightarrow>
          (let s1 = closure_loop (s\<lparr>requiredWorkspaces := seed\<rparr>) 0;
               s2 = evict (production cmd) s1
           in case StreamReport_start ext (install_callback ext) s2 of
                (r, tr) \<Rightarrow> (r, s2, tr)))"

section \<open>Notions used by the properties\<close>

text \<open>
  The descriptors of the two hard scopes of a workspace, and the hard edges of the
  workspace graph: \<open>v\<close> has a descriptor in \<^verbatim>\<open>dependencies\<close> or
  \<^verbatim>\<open>devDependencies\<close> that resolves to \<open>w\<close>.
\<close>

definition hard_descriptors :: "state \<Rightarrow> wsref \<Rightarrow> descriptor list" where
  "hard_descriptors s v =
     map_values (dependencies (manifest (heap s v)))
       @ map_values (devDependencies (manifest (heap s v)))"

definition hard_edge :: "state \<Rightarrow> wsref \<Rightarrow> wsref \<Rightarrow> bool" where
  "hard_edge s v w \<longleftrightarrow>
     (\<exists>d \<in> set (hard_descriptors s v). tryWorkspaceByDescriptor s d = Some w)"

text \<open>The nodes reachable from a set of nodes along the edges of a relation.\<close>

inductive_set reach :: "('a \<Rightarrow> 'a \<Rightarrow> bool) \<Rightarrow> 'a set \<Rightarrow> 'a set"
  for E :: "'a \<Rightarrow> 'a \<Rightarrow> bool" and S :: "'a set" where
  seed: "w \<in> S \<Longrightarrow> w \<in> reach E S"
| step: "v \<in> reach E S \<Longrightarrow> E v w \<Longrightarrow> w \<in> reach E S"

text \<open>The state with every \<^verbatim>\<open>peerDependencies\<close> scope emptied.\<close>

definition without_peers :: "state \<Rightarrow> state" where
  "without_peers s =
     s\<lparr>heap := (\<lambda>w. (heap s w)\<lparr>manifest := (manifest (heap s w))\<lparr>peerDependencies := []\<rparr>\<rparr>)\<rparr>"

text \<open>
  The invariant of the project that the loader establishes: each index is keyed by
  the workspace's own path, respectively identity, has one entry per key, and holds
  exactly the workspaces of the ordered list.
\<close>

definition index_consistent :: "state \<Rightarrow> bool" where
  "index_consistent s \<longleftrightarrow>
     distinct (map fst (workspacesByCwd s)) \<and>
     distinct (map fst (workspacesByIdent s)) \<and>
     (\<forall>w \<in> set (workspaces s).
        (cwd (heap s w), w) \<in> set (workspacesByCwd s) \<and>
        (locator_identHash (heap s w), w) \<in> set (workspacesByIdent s)) \<and>
     (\<forall>e \<in> set (workspacesByCwd s).
        snd e \<in> set (workspaces s) \<and> fst e = cwd (heap s (snd e))) \<and>
     (\<forall>e \<in> set (workspacesByIdent s).
        snd e \<in> set (workspaces s) \<and> fst e = locator_identHash (heap s (snd e)))"

text \<open>
  What the first loop leaves of a manifest, by the mode and by whether the workspace is
  required; and the workspaces that the first loop pushes on \<^verbatim>\<open>evictions\<close>.
\<close>

definition prune :: "bool \<Rightarrow> bool \<Rightarrow> manifest \<Rightarrow> manifest" where
  "prune pr req m =
     (if req then (if pr then m\<lparr>devDependencies := []\<rparr> else m)
      else m\<lparr>dependencies := [], devDependencies := [], peerDependencies := []\<rparr>)"

definition evictable :: "state \<Rightarrow> wsref \<Rightarrow> bool" where
  "evictable s w \<longleftrightarrow> w \<notin> set (requiredWorkspaces s) \<and> topLevelWorkspace s \<noteq> w"

section \<open>An example project\<close>

text \<open>
  The workspaces \<open>root\<close> (0), \<open>a\<close> (1), \<open>b\<close> (2), \<open>c\<close> (3) and \<open>d\<close> (4):
  \<open>a\<close> depends on \<open>b\<close> and on the external \<open>lodash\<close>, and has \<open>c\<close> as a peer
  dependency only; \<open>b\<close> has \<open>d\<close> as a development dependency; \<open>root\<close> depends
  on \<open>c\<close>. The seed is \<open>a\<close>.
\<close>

definition demo_entry :: "identHash \<Rightarrow> identHash \<times> descriptor" where
  "demo_entry n = (n, \<lparr>desc_identHash = n, desc_range = ''workspace:*''\<rparr>)"

definition demo_heap :: "wsref \<Rightarrow> workspace" where
  "demo_heap w =
     (if w = 0 then
        \<lparr>cwd = ''/'', locator_identHash = ''root'',
         manifest = \<lparr>dependencies = [demo_entry ''c''], devDependencies = [],
                     peerDependencies = []\<rparr>\<rparr>
      else if w = 1 then
        \<lparr>cwd = ''/a'', locator_identHash = ''a'',
         manifest = \<lparr>dependencies = [demo_entry ''b'', demo_entry ''lodash''],
                     devDependencies = [demo_entry ''typescript''],
                     peerDependencies = [demo_entry ''c'']\<rparr>\<rparr>
      else if w = 2 then
        \<lparr>cwd = ''/b'', locator_identHash = ''b'',
         manifest = \<lparr>dependencies = [], devDependencies = [demo_entry ''d''],
                     peerDependencies = []\<rparr>\<rparr>
      else if w = 3 then
        \<lparr>cwd = ''/c'', locator_identHash = ''c'',
         manifest = \<lparr>dependencies = [demo_entry ''lodash''], devDependencies = [],
                     peerDependencies = [demo_entry ''b'']\<rparr>\<rparr>
      else
        \<lparr>cwd = ''/d'', locator_identHash = ''d'',
         manifest = \<lparr>dependencies = [], devDependencies = [], peerDependencies = []\<rparr>\<rparr>)"

definition demo :: state where
  "demo =
     \<lparr>workspaces = [0, 1, 2, 3, 4],
      workspacesByCwd = [(''/'', 0), (''/a'', 1), (''/b'', 2), (''/c'', 3), (''/d'', 4)],
      workspacesByIdent = [(''root'', 0), (''a'', 1), (''b'', 2), (''c'', 3), (''d'', 4)],
      topLevelWorkspace = 0,
      heap = demo_heap,
      requiredWorkspaces = [1],
      evictions = []\<rparr>"

text \<open>
  The example after the closure loop, and the collaborators and options of example runs:
  an install routine with a fixed outcome, and a command with given names and
  \<^verbatim>\<open>--all\<close> flag.
\<close>

definition demo_focused :: state where
  "demo_focused = demo\<lparr>requiredWorkspaces := [1, 2, 4]\<rparr>"

definition demo_ext :: "string option \<Rightarrow> externals" where
  "demo_ext outcome = \<lparr>parseIdent = (\<lambda>name. name), install = (\<lambda>s p. outcome), exitCode = 0\<rparr>"

definition demo_cmd :: "string list \<Rightarrow> bool \<Rightarrow> command" where
  "demo_cmd names a = \<lparr>cmd_workspaces = names, json = False, production = False, all = a\<rparr>"

section \<open>Lemmas on the closure loop\<close>

subsection \<open>Frame of the closure loop\<close>

lemma scan_descriptor_frame [simp]:
  "workspaces (scan_descriptor s d) = workspaces s"
  "workspacesByCwd (scan_descriptor s d) = workspacesByCwd s"
  "topLevelWorkspace (scan_descriptor s d) = topLevelWorkspace s"
  "evictions (scan_descriptor s d) = evictions s"
  by (simp_all add: scan_descriptor_def split: option.splits)

lemma foldl_scan_descriptor_frame [simp]:
  "workspaces (foldl scan_descriptor s ds) = workspaces s"
  "workspacesByCwd (foldl scan_descriptor s ds) = workspacesByCwd s"
  "topLevelWorkspace (foldl scan_descriptor s ds) = topLevelWorkspace s"
  "evictions (foldl scan_descriptor s ds) = evictions s"
  by (induction ds arbitrary: s) simp_all

lemma scan_scope_frame [simp]:
  "workspaces (scan_scope w s t) = workspaces s"
  "workspacesByCwd (scan_scope w s t) = workspacesByCwd s"
  "topLevelWorkspace (scan_scope w s t) = topLevelWorkspace s"
  "evictions (scan_scope w s t) = evictions s"
  by (simp_all add: scan_scope_def)

lemma foldl_scan_scope_frame [simp]:
  "workspaces (foldl (scan_scope w) s ts) = workspaces s"
  "workspacesByCwd (foldl (scan_scope w) s ts) = workspacesByCwd s"
  "topLevelWorkspace (foldl (scan_scope w) s ts) = topLevelWorkspace s"
  "evictions (foldl (scan_scope w) s ts) = evictions s"
  by (induction ts arbitrary: s) simp_all

lemma scan_workspace_frame [simp]:
  "workspaces (scan_workspace s w) = workspaces s"
  "workspacesByCwd (scan_workspace s w) = workspacesByCwd s"
  "topLevelWorkspace (scan_workspace s w) = topLevelWorkspace s"
  "evictions (scan_workspace s w) = evictions s"
  by (simp_all add: scan_workspace_def)

lemma closure_loop_frame:
  "workspaces (closure_loop s i) = workspaces s \<and>
   workspacesByCwd (closure_loop s i) = workspacesByCwd s \<and>
   workspacesByIdent (closure_loop s i) = workspacesByIdent s \<and>
   topLevelWorkspace (closure_loop s i) = topLevelWorkspace s \<and>
   heap (closure_loop s i) = heap s \<and>
   evictions (closure_loop s i) = evictions s"
proof (induction s i rule: closure_loop.induct)
  case (1 s i)
  show ?case
  proof (cases "i < length (requiredWorkspaces s)")
    case True
    then have "closure_loop s i = closure_loop (scan_workspace s (requiredWorkspaces s ! i)) (Suc i)"
      by (subst closure_loop.simps) simp
    with 1 [OF True] show ?thesis by simp
  next
    case False
    then have "closure_loop s i = s" by (subst closure_loop.simps) simp
    then show ?thesis by simp
  qed
qed

lemma tryWorkspaceByDescriptor_cong:
  "workspacesByIdent s' = workspacesByIdent s \<Longrightarrow>
   tryWorkspaceByDescriptor s' d = tryWorkspaceByDescriptor s d"
  by (simp add: tryWorkspaceByDescriptor_def)

lemma hard_descriptors_cong:
  "heap s' = heap s \<Longrightarrow> hard_descriptors s' v = hard_descriptors s v"
  by (simp add: hard_descriptors_def)

lemma hard_edge_cong:
  "heap s' = heap s \<Longrightarrow> workspacesByIdent s' = workspacesByIdent s \<Longrightarrow>
   hard_edge s' = hard_edge s"
  by (simp add: hard_edge_def fun_eq_iff hard_descriptors_def tryWorkspaceByDescriptor_def)

subsection \<open>What one scan adds\<close>

lemma set_set_add [simp]: "set (set_add xs x) = insert x (set xs)"
  by (auto simp: set_add_def)

lemma distinct_set_add [simp]: "distinct (set_add xs x) = distinct xs"
  by (auto simp: set_add_def)

lemma set_add_prefix: "\<exists>ys. set_add xs x = xs @ ys"
  by (simp add: set_add_def)

lemma scan_descriptor_set:
  "set (requiredWorkspaces (scan_descriptor s d)) =
     set (requiredWorkspaces s) \<union> {m. tryWorkspaceByDescriptor s d = Some m}"
  by (cases "tryWorkspaceByDescriptor s d") (auto simp: scan_descriptor_def)

lemma scan_descriptor_try [simp]:
  "tryWorkspaceByDescriptor (scan_descriptor s d) = tryWorkspaceByDescriptor s"
  by (simp add: fun_eq_iff tryWorkspaceByDescriptor_def)

lemma foldl_scan_descriptor_set:
  "set (requiredWorkspaces (foldl scan_descriptor s ds)) =
     set (requiredWorkspaces s) \<union> {m. \<exists>d \<in> set ds. tryWorkspaceByDescriptor s d = Some m}"
proof (induction ds arbitrary: s)
  case Nil
  then show ?case by simp
next
  case (Cons d ds)
  have "set (requiredWorkspaces (foldl scan_descriptor (scan_descriptor s d) ds)) =
     set (requiredWorkspaces (scan_descriptor s d))
       \<union> {m. \<exists>d \<in> set ds. tryWorkspaceByDescriptor s d = Some m}"
    using Cons.IH [of "scan_descriptor s d"] by simp
  then show ?case by (auto simp: scan_descriptor_set)
qed

lemma foldl_scan_descriptor_prefix:
  "\<exists>ys. requiredWorkspaces (foldl scan_descriptor s ds) = requiredWorkspaces s @ ys"
proof (induction ds arbitrary: s)
  case Nil
  then show ?case by simp
next
  case (Cons d ds)
  obtain ys where ys: "requiredWorkspaces (scan_descriptor s d) = requiredWorkspaces s @ ys"
    using set_add_prefix [of "requiredWorkspaces s"]
    by (cases "tryWorkspaceByDescriptor s d") (auto simp: scan_descriptor_def)
  from Cons.IH [of "scan_descriptor s d"] obtain zs where
    "requiredWorkspaces (foldl scan_descriptor (scan_descriptor s d) ds)
       = requiredWorkspaces (scan_descriptor s d) @ zs" by blast
  with ys show ?case by simp
qed

lemma foldl_scan_descriptor_distinct:
  "distinct (requiredWorkspaces (foldl scan_descriptor s ds)) = distinct (requiredWorkspaces s)"
proof (induction ds arbitrary: s)
  case Nil
  then show ?case by simp
next
  case (Cons d ds)
  have "distinct (requiredWorkspaces (scan_descriptor s d)) = distinct (requiredWorkspaces s)"
    by (cases "tryWorkspaceByDescriptor s d") (auto simp: scan_descriptor_def)
  with Cons.IH [of "scan_descriptor s d"] show ?case by simp
qed

lemma scan_workspace_unfold:
  "scan_workspace s w =
     foldl scan_descriptor
       (foldl scan_descriptor s (map_values (dependencies (manifest (heap s w)))))
       (map_values (devDependencies (manifest (heap s w))))"
  by (simp add: scan_workspace_def hardDependencies_def scan_scope_def)

lemma scan_workspace_set:
  "set (requiredWorkspaces (scan_workspace s w)) =
     set (requiredWorkspaces s) \<union> {m. hard_edge s w m}"
proof -
  let ?s1 = "foldl scan_descriptor s (map_values (dependencies (manifest (heap s w))))"
  have t: "tryWorkspaceByDescriptor ?s1 = tryWorkspaceByDescriptor s"
    by (simp add: fun_eq_iff tryWorkspaceByDescriptor_def)
  show ?thesis
    unfolding scan_workspace_unfold foldl_scan_descriptor_set t
    by (auto simp: hard_edge_def hard_descriptors_def)
qed

lemma scan_workspace_prefix:
  "\<exists>ys. requiredWorkspaces (scan_workspace s w) = requiredWorkspaces s @ ys"
proof -
  let ?s1 = "foldl scan_descriptor s (map_values (dependencies (manifest (heap s w))))"
  obtain ys where "requiredWorkspaces ?s1 = requiredWorkspaces s @ ys"
    using foldl_scan_descriptor_prefix by blast
  moreover obtain zs where
    "requiredWorkspaces (foldl scan_descriptor ?s1 (map_values (devDependencies (manifest (heap s w)))))
       = requiredWorkspaces ?s1 @ zs"
    using foldl_scan_descriptor_prefix by blast
  ultimately show ?thesis unfolding scan_workspace_unfold by simp
qed

lemma scan_workspace_distinct:
  "distinct (requiredWorkspaces (scan_workspace s w)) = distinct (requiredWorkspaces s)"
  unfolding scan_workspace_unfold by (simp add: foldl_scan_descriptor_distinct)

lemma scan_workspace_hard_edge [simp]: "hard_edge (scan_workspace s w) = hard_edge s"
  by (rule hard_edge_cong) simp_all

subsection \<open>Invariants of the closure loop\<close>

lemma closure_loop_step:
  "i < length (requiredWorkspaces s) \<Longrightarrow>
   closure_loop s i = closure_loop (scan_workspace s (requiredWorkspaces s ! i)) (Suc i)"
  by (subst closure_loop.simps) simp

lemma closure_loop_stop:
  "\<not> i < length (requiredWorkspaces s) \<Longrightarrow> closure_loop s i = s"
  by (subst closure_loop.simps) simp

lemma closure_loop_prefix:
  "\<exists>ys. requiredWorkspaces (closure_loop s i) = requiredWorkspaces s @ ys"
proof (induction s i rule: closure_loop.induct)
  case (1 s i)
  show ?case
  proof (cases "i < length (requiredWorkspaces s)")
    case True
    let ?s' = "scan_workspace s (requiredWorkspaces s ! i)"
    from 1 [OF True] obtain ys where
      "requiredWorkspaces (closure_loop ?s' (Suc i)) = requiredWorkspaces ?s' @ ys" by blast
    moreover obtain zs where "requiredWorkspaces ?s' = requiredWorkspaces s @ zs"
      using scan_workspace_prefix by blast
    ultimately show ?thesis by (simp add: closure_loop_step [OF True])
  next
    case False
    then show ?thesis by (simp add: closure_loop_stop)
  qed
qed

lemma closure_loop_distinct:
  "distinct (requiredWorkspaces (closure_loop s i)) = distinct (requiredWorkspaces s)"
proof (induction s i rule: closure_loop.induct)
  case (1 s i)
  show ?case
  proof (cases "i < length (requiredWorkspaces s)")
    case True
    with 1 [OF True] show ?thesis
      by (simp add: closure_loop_step [OF True] scan_workspace_distinct)
  next
    case False
    then show ?thesis by (simp add: closure_loop_stop)
  qed
qed

lemma closure_loop_bound:
  "set (requiredWorkspaces (closure_loop s i))
     \<subseteq> set (requiredWorkspaces s) \<union> snd ` set (workspacesByIdent s)"
proof (induction s i rule: closure_loop.induct)
  case (1 s i)
  show ?case
  proof (cases "i < length (requiredWorkspaces s)")
    case True
    let ?s' = "scan_workspace s (requiredWorkspaces s ! i)"
    have "{m. hard_edge s (requiredWorkspaces s ! i) m} \<subseteq> snd ` set (workspacesByIdent s)"
      unfolding hard_edge_def tryWorkspaceByDescriptor_def by (force dest: map_of_SomeD)
    then have "set (requiredWorkspaces ?s')
        \<subseteq> set (requiredWorkspaces s) \<union> snd ` set (workspacesByIdent s)"
      by (auto simp: scan_workspace_set)
    with 1 [OF True] show ?thesis
      by (auto simp: closure_loop_step [OF True])
  next
    case False
    then show ?thesis by (simp add: closure_loop_stop)
  qed
qed

text \<open>
  The loop invariant: every workspace before the iterator's position has been scanned,
  so each of its hard edges ends in the set.
\<close>

lemma closure_loop_closed:
  assumes "\<forall>j<i. j < length (requiredWorkspaces s) \<longrightarrow>
             (\<forall>m. hard_edge s (requiredWorkspaces s ! j) m \<longrightarrow> m \<in> set (requiredWorkspaces s))"
  shows "\<forall>v \<in> set (requiredWorkspaces (closure_loop s i)).
           \<forall>m. hard_edge s v m \<longrightarrow> m \<in> set (requiredWorkspaces (closure_loop s i))"
  using assms
proof (induction s i rule: closure_loop.induct)
  case (1 s i)
  show ?case
  proof (cases "i < length (requiredWorkspaces s)")
    case True
    let ?w = "requiredWorkspaces s ! i"
    let ?s' = "scan_workspace s ?w"
    obtain zs where zs: "requiredWorkspaces ?s' = requiredWorkspaces s @ zs"
      using scan_workspace_prefix by blast
    have inv: "\<forall>j<Suc i. j < length (requiredWorkspaces ?s') \<longrightarrow>
        (\<forall>m. hard_edge ?s' (requiredWorkspaces ?s' ! j) m \<longrightarrow> m \<in> set (requiredWorkspaces ?s'))"
    proof (intro allI impI)
      fix j m
      assume j: "j < Suc i" and e: "hard_edge ?s' (requiredWorkspaces ?s' ! j) m"
      from j True have jl: "j < length (requiredWorkspaces s)" by simp
      then have nth: "requiredWorkspaces ?s' ! j = requiredWorkspaces s ! j"
        by (simp add: zs nth_append)
      from e have e': "hard_edge s (requiredWorkspaces s ! j) m" by (simp add: nth)
      show "m \<in> set (requiredWorkspaces ?s')"
      proof (cases "j = i")
        case True
        with e' show ?thesis by (simp add: scan_workspace_set)
      next
        case False
        with j have "j < i" by simp
        with "1.prems" jl e' have "m \<in> set (requiredWorkspaces s)" by blast
        then show ?thesis by (simp add: scan_workspace_set)
      qed
    qed
    from "1.IH" [OF True inv] show ?thesis
      by (simp add: closure_loop_step [OF True])
  next
    case False
    then have stop: "closure_loop s i = s" by (simp add: closure_loop_stop)
    show ?thesis
    proof (intro ballI allI impI)
      fix v m
      assume v: "v \<in> set (requiredWorkspaces (closure_loop s i))" and e: "hard_edge s v m"
      from v obtain j where j: "j < length (requiredWorkspaces s)" "requiredWorkspaces s ! j = v"
        by (auto simp: stop in_set_conv_nth)
      with False have "j < i" by simp
      with "1.prems" j e show "m \<in> set (requiredWorkspaces (closure_loop s i))"
        by (auto simp: stop)
    qed
  qed
qed

lemma closure_loop_sound:
  assumes "set (requiredWorkspaces s) \<subseteq> reach E S" and "E = hard_edge s"
  shows "set (requiredWorkspaces (closure_loop s i)) \<subseteq> reach E S"
  using assms
proof (induction s i rule: closure_loop.induct)
  case (1 s i)
  show ?case
  proof (cases "i < length (requiredWorkspaces s)")
    case True
    let ?w = "requiredWorkspaces s ! i"
    let ?s' = "scan_workspace s ?w"
    from True "1.prems" have w: "?w \<in> reach E S" by (meson nth_mem subsetD)
    have "set (requiredWorkspaces ?s') \<subseteq> reach E S"
      using "1.prems" w by (auto simp: scan_workspace_set intro: reach.step)
    moreover have "E = hard_edge ?s'" using "1.prems" by simp
    ultimately show ?thesis
      using "1.IH" [OF True] by (simp add: closure_loop_step [OF True])
  next
    case False
    with "1.prems" show ?thesis by (simp add: closure_loop_stop)
  qed
qed

lemma closure_scans_drop:
  "closure_scans s i = drop i (requiredWorkspaces (closure_loop s i))"
proof (induction s i rule: closure_scans.induct)
  case (1 s i)
  show ?case
  proof (cases "i < length (requiredWorkspaces s)")
    case True
    let ?s' = "scan_workspace s (requiredWorkspaces s ! i)"
    let ?r = "requiredWorkspaces (closure_loop s i)"
    obtain ys where ys: "?r = requiredWorkspaces s @ ys"
      using closure_loop_prefix by blast
    with True have il: "i < length ?r" and nth: "?r ! i = requiredWorkspaces s ! i"
      by (simp_all add: nth_append)
    have tl: "closure_scans ?s' (Suc i) = drop (Suc i) ?r"
      using 1 [OF True] by (simp add: closure_loop_step [OF True])
    have "closure_scans s i = (requiredWorkspaces s ! i) # closure_scans ?s' (Suc i)"
      using True by (subst closure_scans.simps) simp
    also have "\<dots> = (?r ! i) # drop (Suc i) ?r"
      by (simp only: nth tl)
    also have "\<dots> = drop i ?r"
      using il by (simp add: Cons_nth_drop_Suc)
    finally show ?thesis .
  next
    case False
    then have "closure_scans s i = []" by (subst closure_scans.simps) simp
    with False show ?thesis by (simp add: closure_loop_stop)
  qed
qed

subsection \<open>The mutation pass\<close>

lemma prune_idem: "prune pr req (prune pr req m) = prune pr req m"
  by (simp add: prune_def)

lemma mutation_step_frame [simp]:
  "workspaces (mutation_step pr s w) = workspaces s"
  "workspacesByCwd (mutation_step pr s w) = workspacesByCwd s"
  "workspacesByIdent (mutation_step pr s w) = workspacesByIdent s"
  "topLevelWorkspace (mutation_step pr s w) = topLevelWorkspace s"
  "requiredWorkspaces (mutation_step pr s w) = requiredWorkspaces s"
  by (simp_all add: mutation_step_def update_manifest_def Let_def)

lemma mutation_step_heap:
  "heap (mutation_step pr s w) =
     (heap s)(w := (heap s w)\<lparr>manifest := prune pr (w \<in> set (requiredWorkspaces s)) (manifest (heap s w))\<rparr>)"
  by (simp add: mutation_step_def update_manifest_def Let_def prune_def)

lemma mutation_step_evictions:
  "evictions (mutation_step pr s w) = evictions s @ (if evictable s w then [w] else [])"
  by (simp add: mutation_step_def update_manifest_def Let_def evictable_def)

lemma foldl_mutation_step_frame [simp]:
  "workspaces (foldl (mutation_step pr) s ws) = workspaces s"
  "workspacesByCwd (foldl (mutation_step pr) s ws) = workspacesByCwd s"
  "workspacesByIdent (foldl (mutation_step pr) s ws) = workspacesByIdent s"
  "topLevelWorkspace (foldl (mutation_step pr) s ws) = topLevelWorkspace s"
  "requiredWorkspaces (foldl (mutation_step pr) s ws) = requiredWorkspaces s"
  by (induction ws arbitrary: s) simp_all

lemma foldl_mutation_step_heap:
  "heap (foldl (mutation_step pr) s ws) w =
     (if w \<in> set ws
      then (heap s w)\<lparr>manifest := prune pr (w \<in> set (requiredWorkspaces s)) (manifest (heap s w))\<rparr>
      else heap s w)"
proof (induction ws arbitrary: s)
  case Nil
  then show ?case by simp
next
  case (Cons x ws)
  show ?case
    by (simp add: Cons.IH [of "mutation_step pr s x"] mutation_step_heap prune_idem)
qed

lemma evictable_mutation_step [simp]: "evictable (mutation_step pr s x) = evictable s"
  by (simp add: fun_eq_iff evictable_def)

lemma foldl_mutation_step_evictions:
  "evictions (foldl (mutation_step pr) s ws) = evictions s @ filter (evictable s) ws"
proof (induction ws arbitrary: s)
  case Nil
  then show ?case by simp
next
  case (Cons x ws)
  show ?case
    by (simp add: Cons.IH [of "mutation_step pr s x"] mutation_step_evictions)
qed

lemma mutation_pass_frame [simp]:
  "workspaces (mutation_pass pr s) = workspaces s"
  "workspacesByCwd (mutation_pass pr s) = workspacesByCwd s"
  "workspacesByIdent (mutation_pass pr s) = workspacesByIdent s"
  "topLevelWorkspace (mutation_pass pr s) = topLevelWorkspace s"
  "requiredWorkspaces (mutation_pass pr s) = requiredWorkspaces s"
  by (simp_all add: mutation_pass_def)

lemma mutation_pass_heap:
  "heap (mutation_pass pr s) w =
     (if w \<in> set (workspaces s)
      then (heap s w)\<lparr>manifest := prune pr (w \<in> set (requiredWorkspaces s)) (manifest (heap s w))\<rparr>
      else heap s w)"
  by (simp add: mutation_pass_def foldl_mutation_step_heap)

lemma mutation_pass_evictions:
  "evictions (mutation_pass pr s) = filter (evictable s) (workspaces s)"
proof -
  have "evictable (s\<lparr>evictions := []\<rparr>) = evictable s"
    by (simp add: fun_eq_iff evictable_def)
  then show ?thesis
    by (simp add: mutation_pass_def foldl_mutation_step_evictions)
qed

lemma mutation_pass_cwd [simp]: "cwd (heap (mutation_pass pr s) w) = cwd (heap s w)"
  by (simp add: mutation_pass_heap)

lemma mutation_pass_identHash [simp]:
  "locator_identHash (heap (mutation_pass pr s) w) = locator_identHash (heap s w)"
  by (simp add: mutation_pass_heap)

subsection \<open>The removal pass\<close>

lemma indexOf_bounds: "x \<in> set xs \<Longrightarrow> 0 \<le> indexOf xs x \<and> indexOf xs x < int (length xs)"
  by (induction xs) (auto simp: Let_def)

lemma splice1_Cons:
  "0 \<le> r \<Longrightarrow> splice1 (y # ys) (r + 1) = y # splice1 ys r"
  by (simp add: splice1_def Let_def nat_add_distrib min_def)

lemma splice1_indexOf: "x \<in> set xs \<Longrightarrow> splice1 xs (indexOf xs x) = remove1 x xs"
proof (induction xs)
  case Nil
  then show ?case by simp
next
  case (Cons y ys)
  show ?case
  proof (cases "y = x")
    case True
    then show ?thesis by (simp add: splice1_def)
  next
    case False
    with Cons.prems have x: "x \<in> set ys" by simp
    then have r: "0 \<le> indexOf ys x" by (simp add: indexOf_bounds)
    then have "indexOf (y # ys) x = indexOf ys x + 1" using False by (simp add: Let_def)
    then show ?thesis using False r Cons.IH [OF x] by (simp add: splice1_Cons)
  qed
qed

lemma removal_step_frame [simp]:
  "heap (removal_step s e) = heap s"
  "requiredWorkspaces (removal_step s e) = requiredWorkspaces s"
  "topLevelWorkspace (removal_step s e) = topLevelWorkspace s"
  "evictions (removal_step s e) = evictions s"
  by (simp_all add: removal_step_def)

lemma foldl_removal_step_frame [simp]:
  "heap (foldl removal_step s es) = heap s"
  "requiredWorkspaces (foldl removal_step s es) = requiredWorkspaces s"
  "topLevelWorkspace (foldl removal_step s es) = topLevelWorkspace s"
  "evictions (foldl removal_step s es) = evictions s"
  by (induction es arbitrary: s) simp_all

lemma foldl_removal_step_workspaces:
  "workspaces (foldl removal_step s es) =
     foldl (\<lambda>ws e. splice1 ws (indexOf ws e)) (workspaces s) es"
  by (induction es arbitrary: s) (simp_all add: removal_step_def)

lemma foldl_removal_step_byCwd:
  "workspacesByCwd (foldl removal_step s es) =
     filter (\<lambda>e. fst e \<notin> (\<lambda>w. cwd (heap s w)) ` set es) (workspacesByCwd s)"
proof (induction es arbitrary: s)
  case Nil
  then show ?case by simp
next
  case (Cons x es)
  have "workspacesByCwd (removal_step s x) = map_delete (cwd (heap s x)) (workspacesByCwd s)"
    by (simp add: removal_step_def)
  then show ?case
    by (simp add: Cons.IH [of "removal_step s x"] map_delete_def conj_commute)
qed

lemma foldl_removal_step_byIdent:
  "workspacesByIdent (foldl removal_step s es) =
     filter (\<lambda>e. fst e \<notin> (\<lambda>w. locator_identHash (heap s w)) ` set es) (workspacesByIdent s)"
proof (induction es arbitrary: s)
  case Nil
  then show ?case by simp
next
  case (Cons x es)
  have "workspacesByIdent (removal_step s x)
      = map_delete (locator_identHash (heap s x)) (workspacesByIdent s)"
    by (simp add: removal_step_def)
  then show ?case
    by (simp add: Cons.IH [of "removal_step s x"] map_delete_def conj_commute)
qed

text \<open>
  Removing, one by one, the first occurrence of every element that satisfies \<open>P\<close>
  leaves the elements that do not, in their order.
\<close>

lemma foldl_splice_filter:
  assumes "\<forall>z \<in> set zs. \<not> P z"
  shows "foldl (\<lambda>ws e. splice1 ws (indexOf ws e)) (zs @ ys) (filter P ys)
           = zs @ filter (\<lambda>y. \<not> P y) ys"
  using assms
proof (induction ys arbitrary: zs)
  case Nil
  then show ?case by simp
next
  case (Cons y ys)
  show ?case
  proof (cases "P y")
    case True
    with Cons.prems have "y \<notin> set zs" by blast
    then have "splice1 (zs @ y # ys) (indexOf (zs @ y # ys) y) = zs @ ys"
      by (simp add: splice1_indexOf remove1_append)
    with True Cons.IH [OF Cons.prems] show ?thesis by simp
  next
    case False
    with Cons.prems have "\<forall>z \<in> set (zs @ [y]). \<not> P z" by simp
    from Cons.IH [OF this] False show ?thesis by simp
  qed
qed

lemma evict_frame [simp]:
  "topLevelWorkspace (evict pr s) = topLevelWorkspace s"
  "requiredWorkspaces (evict pr s) = requiredWorkspaces s"
  by (simp_all add: evict_def removal_pass_def)

lemma evict_heap:
  "heap (evict pr s) w =
     (if w \<in> set (workspaces s)
      then (heap s w)\<lparr>manifest := prune pr (w \<in> set (requiredWorkspaces s)) (manifest (heap s w))\<rparr>
      else heap s w)"
  by (simp add: evict_def removal_pass_def mutation_pass_heap)

lemma evict_evictions: "evictions (evict pr s) = filter (evictable s) (workspaces s)"
  by (simp add: evict_def removal_pass_def mutation_pass_evictions)

lemma evict_workspaces:
  "workspaces (evict pr s) = filter (\<lambda>w. \<not> evictable s w) (workspaces s)"
  using foldl_splice_filter [of "[]" "evictable s" "workspaces s"]
  by (simp add: evict_def removal_pass_def foldl_removal_step_workspaces mutation_pass_evictions)

lemma evict_byCwd:
  "workspacesByCwd (evict pr s) =
     filter (\<lambda>e. fst e \<notin> (\<lambda>w. cwd (heap s w)) ` {w \<in> set (workspaces s). evictable s w})
       (workspacesByCwd s)"
  by (simp add: evict_def removal_pass_def foldl_removal_step_byCwd mutation_pass_evictions)

lemma evict_byIdent:
  "workspacesByIdent (evict pr s) =
     filter (\<lambda>e. fst e \<notin> (\<lambda>w. locator_identHash (heap s w)) ` {w \<in> set (workspaces s). evictable s w})
       (workspacesByIdent s)"
  by (simp add: evict_def removal_pass_def foldl_removal_step_byIdent mutation_pass_evictions)

subsection \<open>Consistency of the indexes\<close>

lemma evict_cwd [simp]: "cwd (heap (evict pr s) w) = cwd (heap s w)"
  by (simp add: evict_heap)

lemma evict_identHash [simp]:
  "locator_identHash (heap (evict pr s) w) = locator_identHash (heap s w)"
  by (simp add: evict_heap)

lemma index_consistent_cwd_iff:
  "index_consistent s \<Longrightarrow> (w \<in> set (workspaces s)) = (w \<in> snd ` set (workspacesByCwd s))"
  unfolding index_consistent_def by force

lemma index_consistent_ident_iff:
  "index_consistent s \<Longrightarrow> (w \<in> set (workspaces s)) = (w \<in> snd ` set (workspacesByIdent s))"
  unfolding index_consistent_def by force

text \<open>
  An index with one entry per key, keyed by a function of the workspace, keeps exactly
  the workspaces that stay when the keys of the removed ones are deleted.
\<close>

lemma filter_index_keeps:
  assumes d: "distinct (map fst idx)"
    and own: "\<forall>w \<in> set ws. (key w, w) \<in> set idx"
    and w: "w \<in> set ws" and keep: "\<not> P w"
  shows "(key w, w) \<in> set (filter (\<lambda>e. fst e \<notin> key ` {v \<in> set ws. P v}) idx)"
proof -
  have "key w \<notin> key ` {v \<in> set ws. P v}"
  proof
    assume "key w \<in> key ` {v \<in> set ws. P v}"
    then obtain v where v: "v \<in> set ws" "P v" "key w = key v" by blast
    from own v have "(key w, v) \<in> set idx" by simp
    moreover from own w have "(key w, w) \<in> set idx" by simp
    ultimately have "v = w" using d by (meson eq_key_imp_eq_value)
    with v keep show False by simp
  qed
  with own w show ?thesis by simp
qed

lemma evict_index_consistent:
  assumes "index_consistent s"
  shows "index_consistent (evict pr s)"
proof -
  let ?P = "evictable s"
  from assms have d1: "distinct (map fst (workspacesByCwd s))"
    and d2: "distinct (map fst (workspacesByIdent s))"
    and own1: "\<forall>w \<in> set (workspaces s). (cwd (heap s w), w) \<in> set (workspacesByCwd s)"
    and own2: "\<forall>w \<in> set (workspaces s).
        (locator_identHash (heap s w), w) \<in> set (workspacesByIdent s)"
    and in1: "\<forall>e \<in> set (workspacesByCwd s).
        snd e \<in> set (workspaces s) \<and> fst e = cwd (heap s (snd e))"
    and in2: "\<forall>e \<in> set (workspacesByIdent s).
        snd e \<in> set (workspaces s) \<and> fst e = locator_identHash (heap s (snd e))"
    unfolding index_consistent_def by simp_all
  have a: "distinct (map fst (workspacesByCwd (evict pr s)))"
    using d1 by (simp add: evict_byCwd distinct_map_filter)
  have b: "distinct (map fst (workspacesByIdent (evict pr s)))"
    using d2 by (simp add: evict_byIdent distinct_map_filter)
  have c: "\<forall>w \<in> set (workspaces (evict pr s)).
      (cwd (heap (evict pr s) w), w) \<in> set (workspacesByCwd (evict pr s)) \<and>
      (locator_identHash (heap (evict pr s) w), w) \<in> set (workspacesByIdent (evict pr s))"
  proof
    fix w
    assume "w \<in> set (workspaces (evict pr s))"
    then have w: "w \<in> set (workspaces s)" and keep: "\<not> ?P w"
      by (simp_all add: evict_workspaces)
    show "(cwd (heap (evict pr s) w), w) \<in> set (workspacesByCwd (evict pr s)) \<and>
      (locator_identHash (heap (evict pr s) w), w) \<in> set (workspacesByIdent (evict pr s))"
      using filter_index_keeps [where key = "\<lambda>w. cwd (heap s w)" and P = ?P, OF d1 own1 w keep]
        filter_index_keeps [where key = "\<lambda>w. locator_identHash (heap s w)" and P = ?P,
          OF d2 own2 w keep]
      by (simp only: evict_byCwd evict_byIdent evict_cwd evict_identHash)
  qed
  have e: "\<forall>e \<in> set (workspacesByCwd (evict pr s)).
      snd e \<in> set (workspaces (evict pr s)) \<and> fst e = cwd (heap (evict pr s) (snd e))"
    using in1 by (auto simp: evict_byCwd evict_workspaces)
  have f: "\<forall>e \<in> set (workspacesByIdent (evict pr s)).
      snd e \<in> set (workspaces (evict pr s)) \<and>
      fst e = locator_identHash (heap (evict pr s) (snd e))"
    using in2 by (auto simp: evict_byIdent evict_workspaces)
  from a b c e f show ?thesis unfolding index_consistent_def by blast
qed

subsection \<open>Seed selection\<close>

lemma foldl_set_add_set: "set (foldl set_add acc xs) = set acc \<union> set xs"
  by (induction xs arbitrary: acc) auto

lemma foldl_set_add_distinct: "distinct (foldl set_add acc xs) = distinct acc"
  by (induction xs arbitrary: acc) auto

lemma set_new_Set [simp]: "set (new_Set xs) = set xs"
  by (simp add: new_Set_def foldl_set_add_set)

lemma distinct_new_Set [simp]: "distinct (new_Set xs)"
  by (simp add: new_Set_def foldl_set_add_distinct)

lemma resolve_names_ok:
  assumes "\<forall>n \<in> set names. map_of (workspacesByIdent s) (parseIdent ext n) \<noteq> None"
  shows "resolve_names ext s names
           = Inr (map (\<lambda>n. the (map_of (workspacesByIdent s) (parseIdent ext n))) names)"
  using assms
  by (induction names) (auto simp: getWorkspaceByIdent_def)

lemma resolve_names_fail:
  assumes "\<exists>n \<in> set names. map_of (workspacesByIdent s) (parseIdent ext n) = None"
  shows "\<exists>n \<in> set names. map_of (workspacesByIdent s) (parseIdent ext n) = None \<and>
           resolve_names ext s names = Inl (UnknownWorkspace (parseIdent ext n))"
  using assms
proof (induction names)
  case Nil
  then show ?case by simp
next
  case (Cons a names)
  show ?case
  proof (cases "map_of (workspacesByIdent s) (parseIdent ext a)")
    case None
    then show ?thesis by (simp add: getWorkspaceByIdent_def)
  next
    case (Some w)
    with Cons.prems have "\<exists>n \<in> set names. map_of (workspacesByIdent s) (parseIdent ext n) = None"
      by auto
    from Cons.IH [OF this] Some show ?thesis
      by (auto simp: getWorkspaceByIdent_def)
  qed
qed

subsection \<open>The example project, evaluated\<close>

lemmas demo_defs = demo_def demo_heap_def demo_entry_def

lemma demo_closure: "requiredWorkspaces (closure_loop demo 0) = [1, 2, 4]"
  by code_simp

lemma demo_consistent: "index_consistent demo"
  by code_simp

lemma demo_closure_state: "closure_loop demo 0 = demo_focused"
  by (simp add: closure_loop.simps scan_workspace_unfold demo_defs map_values_def
     scan_descriptor_def tryWorkspaceByDescriptor_def set_add_def demo_focused_def)

lemma demo_focused_consistent: "index_consistent demo_focused"
  by code_simp

lemma demo_focused_fields:
  "workspaces demo_focused = [0, 1, 2, 3, 4]"
  "requiredWorkspaces demo_focused = [1, 2, 4]"
  "topLevelWorkspace demo_focused = 0"
  "heap demo_focused = demo_heap"
  by (simp_all add: demo_focused_def demo_def)

lemma demo_evict_workspaces: "workspaces (evict pr demo_focused) = [0, 1, 2, 4]"
  by (simp add: evict_workspaces evictable_def demo_focused_fields)

lemma demo_evict_indexes:
  "workspacesByCwd (evict False demo_focused)
     = [(''/'', 0), (''/a'', 1), (''/b'', 2), (''/d'', 4)]"
  "workspacesByIdent (evict False demo_focused)
     = [(''root'', 0), (''a'', 1), (''b'', 2), (''d'', 4)]"
  by code_simp+

section \<open>Properties of the command\<close>

text \<open>
  C1. The set that the closure loop leaves contains the seed, and is closed under hard
  edges: whenever a required workspace has, in its \<^verbatim>\<open>dependencies\<close> or
  \<^verbatim>\<open>devDependencies\<close>, a descriptor that resolves to a workspace of the project, that
  workspace is required too. It holds for every seed, the empty one included.
\<close>

theorem closure_superset_closed:
  "set (requiredWorkspaces s) \<subseteq> set (requiredWorkspaces (closure_loop s 0)) \<and>
   (\<forall>v \<in> set (requiredWorkspaces (closure_loop s 0)).
      \<forall>d \<in> set (hard_descriptors (closure_loop s 0) v).
        \<forall>w. tryWorkspaceByDescriptor (closure_loop s 0) d = Some w
          \<longrightarrow> w \<in> set (requiredWorkspaces (closure_loop s 0)))"
proof
  obtain ys where "requiredWorkspaces (closure_loop s 0) = requiredWorkspaces s @ ys"
    using closure_loop_prefix by blast
  then show "set (requiredWorkspaces s) \<subseteq> set (requiredWorkspaces (closure_loop s 0))"
    by simp
next
  have e: "hard_edge (closure_loop s 0) = hard_edge s"
    by (rule hard_edge_cong) (simp_all add: closure_loop_frame)
  have "\<forall>v \<in> set (requiredWorkspaces (closure_loop s 0)).
          \<forall>m. hard_edge s v m \<longrightarrow> m \<in> set (requiredWorkspaces (closure_loop s 0))"
    by (rule closure_loop_closed) simp
  then have "\<forall>v \<in> set (requiredWorkspaces (closure_loop s 0)).
          \<forall>m. hard_edge (closure_loop s 0) v m \<longrightarrow> m \<in> set (requiredWorkspaces (closure_loop s 0))"
    by (simp only: e)
  then show "\<forall>v \<in> set (requiredWorkspaces (closure_loop s 0)).
      \<forall>d \<in> set (hard_descriptors (closure_loop s 0) v).
        \<forall>w. tryWorkspaceByDescriptor (closure_loop s 0) d = Some w
          \<longrightarrow> w \<in> set (requiredWorkspaces (closure_loop s 0))"
    unfolding hard_edge_def by blast
qed

theorem closure_superset_closed_witness:
  "requiredWorkspaces demo = [1] \<and>
   snd (demo_entry ''b'') \<in> set (hard_descriptors (closure_loop demo 0) 1) \<and>
   tryWorkspaceByDescriptor (closure_loop demo 0) (snd (demo_entry ''b'')) = Some 2 \<and>
   1 \<in> set (requiredWorkspaces (closure_loop demo 0)) \<and>
   2 \<in> set (requiredWorkspaces (closure_loop demo 0))"
proof -
  note t = closure_superset_closed [of demo]
  have seed: "requiredWorkspaces demo = [1]" by (simp add: demo_def)
  have d: "snd (demo_entry ''b'') \<in> set (hard_descriptors (closure_loop demo 0) 1)"
    by (simp add: hard_descriptors_def closure_loop_frame map_values_def demo_defs)
  have r: "tryWorkspaceByDescriptor (closure_loop demo 0) (snd (demo_entry ''b'')) = Some 2"
    by (simp add: tryWorkspaceByDescriptor_def closure_loop_frame demo_defs)
  from t seed have a: "1 \<in> set (requiredWorkspaces (closure_loop demo 0))" by simp
  from t a d r have b: "2 \<in> set (requiredWorkspaces (closure_loop demo 0))" by blast
  from seed d r a b show ?thesis by simp
qed

text \<open>
  C2. For a project whose indexes are consistent with its ordered list, the eviction with
  the required set at hand leaves every workspace of the project that is neither
  required nor the root with its three scopes empty, and takes it out of the ordered
  list, of the index by path and of the index by identity; the list and the two indexes
  are consistent afterwards, so a workspace is in one of them exactly when it is in each.
\<close>

theorem eviction_removes_non_required:
  assumes "index_consistent s"
  shows "(\<forall>w \<in> set (workspaces s).
            w \<notin> set (requiredWorkspaces s) \<and> w \<noteq> topLevelWorkspace s \<longrightarrow>
              dependencies (manifest (heap (evict pr s) w)) = [] \<and>
              devDependencies (manifest (heap (evict pr s) w)) = [] \<and>
              peerDependencies (manifest (heap (evict pr s) w)) = [] \<and>
              w \<notin> set (workspaces (evict pr s)) \<and>
              w \<notin> snd ` set (workspacesByCwd (evict pr s)) \<and>
              w \<notin> snd ` set (workspacesByIdent (evict pr s))) \<and>
         index_consistent (evict pr s) \<and>
         (\<forall>w. (w \<in> set (workspaces (evict pr s)))
                 = (w \<in> snd ` set (workspacesByCwd (evict pr s))) \<and>
               (w \<in> set (workspaces (evict pr s)))
                 = (w \<in> snd ` set (workspacesByIdent (evict pr s))))"
proof -
  have c: "index_consistent (evict pr s)"
    using assms by (rule evict_index_consistent)
  have iff: "\<forall>w. (w \<in> set (workspaces (evict pr s)))
                 = (w \<in> snd ` set (workspacesByCwd (evict pr s))) \<and>
               (w \<in> set (workspaces (evict pr s)))
                 = (w \<in> snd ` set (workspacesByIdent (evict pr s)))"
    using index_consistent_cwd_iff [OF c] index_consistent_ident_iff [OF c] by blast
  have "\<forall>w \<in> set (workspaces s).
            w \<notin> set (requiredWorkspaces s) \<and> w \<noteq> topLevelWorkspace s \<longrightarrow>
              dependencies (manifest (heap (evict pr s) w)) = [] \<and>
              devDependencies (manifest (heap (evict pr s) w)) = [] \<and>
              peerDependencies (manifest (heap (evict pr s) w)) = [] \<and>
              w \<notin> set (workspaces (evict pr s))"
    by (auto simp: evict_heap prune_def evict_workspaces evictable_def)
  with iff c show ?thesis by blast
qed

theorem eviction_removes_non_required_witness:
  "index_consistent demo_focused \<and>
   3 \<in> set (workspaces demo_focused) \<and>
   3 \<notin> set (requiredWorkspaces demo_focused) \<and>
   3 \<noteq> topLevelWorkspace demo_focused \<and>
   manifest (heap demo_focused 3)
     = \<lparr>dependencies = [demo_entry ''lodash''], devDependencies = [],
        peerDependencies = [demo_entry ''b'']\<rparr> \<and>
   manifest (heap (evict False demo_focused) 3)
     = \<lparr>dependencies = [], devDependencies = [], peerDependencies = []\<rparr> \<and>
   3 \<notin> set (workspaces (evict False demo_focused)) \<and>
   3 \<notin> snd ` set (workspacesByCwd (evict False demo_focused)) \<and>
   3 \<notin> snd ` set (workspacesByIdent (evict False demo_focused)) \<and>
   index_consistent (evict False demo_focused)"
proof -
  note t = eviction_removes_non_required [OF demo_focused_consistent, of False]
  have h: "3 \<in> set (workspaces demo_focused) \<and>
      3 \<notin> set (requiredWorkspaces demo_focused) \<and> 3 \<noteq> topLevelWorkspace demo_focused"
    by (simp add: demo_focused_fields)
  have before: "manifest (heap demo_focused 3)
     = \<lparr>dependencies = [demo_entry ''lodash''], devDependencies = [],
        peerDependencies = [demo_entry ''b'']\<rparr>"
    by (simp add: demo_focused_fields demo_heap_def)
  from t h have after: "dependencies (manifest (heap (evict False demo_focused) 3)) = [] \<and>
      devDependencies (manifest (heap (evict False demo_focused) 3)) = [] \<and>
      peerDependencies (manifest (heap (evict False demo_focused) 3)) = [] \<and>
      3 \<notin> set (workspaces (evict False demo_focused)) \<and>
      3 \<notin> snd ` set (workspacesByCwd (evict False demo_focused)) \<and>
      3 \<notin> snd ` set (workspacesByIdent (evict False demo_focused))"
    by blast
  then have "manifest (heap (evict False demo_focused) 3)
     = \<lparr>dependencies = [], devDependencies = [], peerDependencies = []\<rparr>"
    by (cases "manifest (heap (evict False demo_focused) 3)") simp
  with t h before after demo_focused_consistent show ?thesis by blast
qed

text \<open>
  C3. The eviction leaves the \<^verbatim>\<open>dependencies\<close> and \<^verbatim>\<open>peerDependencies\<close> of every
  required workspace of the project as they were; its \<^verbatim>\<open>devDependencies\<close> are empty
  in production mode and as they were otherwise.
\<close>

theorem required_manifests_kept:
  assumes "w \<in> set (requiredWorkspaces s)" and "w \<in> set (workspaces s)"
  shows "dependencies (manifest (heap (evict pr s) w)) = dependencies (manifest (heap s w)) \<and>
         peerDependencies (manifest (heap (evict pr s) w))
           = peerDependencies (manifest (heap s w)) \<and>
         devDependencies (manifest (heap (evict pr s) w))
           = (if pr then [] else devDependencies (manifest (heap s w)))"
  using assms by (simp add: evict_heap prune_def)

theorem required_manifests_kept_witness:
  "1 \<in> set (requiredWorkspaces demo_focused) \<and> 1 \<in> set (workspaces demo_focused) \<and>
   dependencies (manifest (heap (evict True demo_focused) 1))
     = [demo_entry ''b'', demo_entry ''lodash''] \<and>
   peerDependencies (manifest (heap (evict True demo_focused) 1)) = [demo_entry ''c''] \<and>
   devDependencies (manifest (heap demo_focused 1)) = [demo_entry ''typescript''] \<and>
   devDependencies (manifest (heap (evict True demo_focused) 1)) = [] \<and>
   devDependencies (manifest (heap (evict False demo_focused) 1)) = [demo_entry ''typescript'']"
proof -
  have r: "1 \<in> set (requiredWorkspaces demo_focused)" by (simp add: demo_focused_fields)
  have p: "1 \<in> set (workspaces demo_focused)" by (simp add: demo_focused_fields)
  from required_manifests_kept [OF r p, of True] required_manifests_kept [OF r p, of False] r p
  show ?thesis by (simp add: demo_focused_fields demo_heap_def)
qed

text \<open>
  C4. In every run the install routine is never called with \<^verbatim>\<open>persistProject\<close>
  set, and the calls are none (the seed selection failed), the install alone (it
  failed), or the install followed by one persistence of the install state. The
  persistence happens exactly in the runs that return an exit code: when the seed is
  selected and the install succeeds on the pruned project, the run returns the exit code
  of the report after the two calls; when the install fails with an error, the run
  returns that error and the install state is not persisted.
\<close>

theorem install_state_persistence:
  "(case execute ext cmd active s of (r, s', tr) \<Rightarrow>
      InstallCall True \<notin> set tr \<and>
      (tr = [] \<or> tr = [InstallCall False]
         \<or> tr = [InstallCall False, PersistInstallStateFile]) \<and>
      ((\<exists>c. r = Inr c) = (tr = [InstallCall False, PersistInstallStateFile])) \<and>
      (\<forall>seed. select_seed ext cmd active s = Inr seed \<longrightarrow>
         (install ext s' False = None \<longrightarrow>
            r = Inr (exitCode ext) \<and> tr = [InstallCall False, PersistInstallStateFile]) \<and>
         (\<forall>e. install ext s' False = Some e \<longrightarrow>
            r = Inl (InstallFailure e) \<and> tr = [InstallCall False])))"
proof (cases "select_seed ext cmd active s")
  case (Inl e)
  then show ?thesis by (simp add: execute_def)
next
  case (Inr seed)
  let ?s3 = "evict (production cmd) (closure_loop (s\<lparr>requiredWorkspaces := seed\<rparr>) 0)"
  show ?thesis
  proof (cases "install ext ?s3 False")
    case None
    with Inr show ?thesis
      by (simp add: execute_def StreamReport_start_def install_callback_def Let_def)
  next
    case (Some e)
    with Inr show ?thesis
      by (simp add: execute_def StreamReport_start_def install_callback_def Let_def)
  qed
qed

theorem install_state_persistence_witness:
  "select_seed (demo_ext None) (demo_cmd [''a''] False) None demo = Inr [1] \<and>
   fst (execute (demo_ext None) (demo_cmd [''a''] False) None demo) = Inr 0 \<and>
   snd (snd (execute (demo_ext None) (demo_cmd [''a''] False) None demo))
     = [InstallCall False, PersistInstallStateFile] \<and>
   fst (execute (demo_ext (Some ''network'')) (demo_cmd [''a''] False) None demo)
     = Inl (InstallFailure ''network'') \<and>
   snd (snd (execute (demo_ext (Some ''network'')) (demo_cmd [''a''] False) None demo))
     = [InstallCall False]"
proof -
  let ?c = "demo_cmd [''a''] False"
  have seed: "select_seed (demo_ext outcome) ?c None demo = Inr [1]" for outcome
    by (simp add: select_seed_def demo_cmd_def demo_ext_def getWorkspaceByIdent_def demo_def
        new_Set_def set_add_def)
  have ok: "install (demo_ext None) s' False = None" for s'
    by (simp add: demo_ext_def)
  have ko: "install (demo_ext (Some ''network'')) s' False = Some ''network''" for s'
    by (simp add: demo_ext_def)
  have x: "exitCode (demo_ext None) = 0" by (simp add: demo_ext_def)
  obtain r s' tr where e1: "execute (demo_ext None) ?c None demo = (r, s', tr)"
    by (cases "execute (demo_ext None) ?c None demo") blast
  from install_state_persistence [of "demo_ext None" ?c None demo] e1 seed [of None] ok [of s'] x
  have a: "r = Inr 0 \<and> tr = [InstallCall False, PersistInstallStateFile]" by simp
  obtain r2 s2 tr2 where
    e2: "execute (demo_ext (Some ''network'')) ?c None demo = (r2, s2, tr2)"
    by (cases "execute (demo_ext (Some ''network'')) ?c None demo") blast
  from install_state_persistence [of "demo_ext (Some ''network'')" ?c None demo] e2
    seed [of "Some ''network''"] ko [of s2]
  have b: "r2 = Inl (InstallFailure ''network'') \<and> tr2 = [InstallCall False]" by simp
  from a b e1 e2 seed [of None] show ?thesis by simp
qed

text \<open>
  C5. A root that is in the ordered list before the eviction is in it afterwards, whatever
  the required set. When the root is not required its three scopes are emptied; and for
  a project with consistent indexes the root keeps its entry in both indexes.
\<close>

theorem root_is_retained:
  assumes "topLevelWorkspace s \<in> set (workspaces s)"
  shows "topLevelWorkspace (evict pr s) = topLevelWorkspace s \<and>
         topLevelWorkspace s \<in> set (workspaces (evict pr s)) \<and>
         (topLevelWorkspace s \<notin> set (requiredWorkspaces s) \<longrightarrow>
            dependencies (manifest (heap (evict pr s) (topLevelWorkspace s))) = [] \<and>
            devDependencies (manifest (heap (evict pr s) (topLevelWorkspace s))) = [] \<and>
            peerDependencies (manifest (heap (evict pr s) (topLevelWorkspace s))) = []) \<and>
         (index_consistent s \<longrightarrow>
            (cwd (heap s (topLevelWorkspace s)), topLevelWorkspace s)
              \<in> set (workspacesByCwd (evict pr s)) \<and>
            (locator_identHash (heap s (topLevelWorkspace s)), topLevelWorkspace s)
              \<in> set (workspacesByIdent (evict pr s)))"
proof -
  have kept: "topLevelWorkspace s \<in> set (workspaces (evict pr s))"
    using assms by (simp add: evict_workspaces evictable_def)
  have cleared: "topLevelWorkspace s \<notin> set (requiredWorkspaces s) \<longrightarrow>
            dependencies (manifest (heap (evict pr s) (topLevelWorkspace s))) = [] \<and>
            devDependencies (manifest (heap (evict pr s) (topLevelWorkspace s))) = [] \<and>
            peerDependencies (manifest (heap (evict pr s) (topLevelWorkspace s))) = []"
    using assms by (simp add: evict_heap prune_def)
  have "(cwd (heap s (topLevelWorkspace s)), topLevelWorkspace s)
              \<in> set (workspacesByCwd (evict pr s)) \<and>
            (locator_identHash (heap s (topLevelWorkspace s)), topLevelWorkspace s)
              \<in> set (workspacesByIdent (evict pr s))" if "index_consistent s"
  proof -
    from that have "index_consistent (evict pr s)" by (rule evict_index_consistent)
    with kept have
      "(cwd (heap (evict pr s) (topLevelWorkspace s)), topLevelWorkspace s)
          \<in> set (workspacesByCwd (evict pr s)) \<and>
       (locator_identHash (heap (evict pr s) (topLevelWorkspace s)), topLevelWorkspace s)
          \<in> set (workspacesByIdent (evict pr s))"
      unfolding index_consistent_def by blast
    then show ?thesis by simp
  qed
  with kept cleared show ?thesis by simp
qed

theorem root_is_retained_witness:
  "topLevelWorkspace demo_focused = 0 \<and> 0 \<in> set (workspaces demo_focused) \<and>
   0 \<notin> set (requiredWorkspaces demo_focused) \<and> index_consistent demo_focused \<and>
   dependencies (manifest (heap demo_focused 0)) = [demo_entry ''c''] \<and>
   0 \<in> set (workspaces (evict False demo_focused)) \<and>
   dependencies (manifest (heap (evict False demo_focused) 0)) = [] \<and>
   devDependencies (manifest (heap (evict False demo_focused) 0)) = [] \<and>
   peerDependencies (manifest (heap (evict False demo_focused) 0)) = [] \<and>
   (''/'', 0) \<in> set (workspacesByCwd (evict False demo_focused)) \<and>
   (''root'', 0) \<in> set (workspacesByIdent (evict False demo_focused))"
proof -
  have top: "topLevelWorkspace demo_focused = 0" by (simp add: demo_focused_fields)
  have h: "topLevelWorkspace demo_focused \<in> set (workspaces demo_focused)"
    by (simp add: demo_focused_fields)
  have n: "0 \<notin> set (requiredWorkspaces demo_focused)" by (simp add: demo_focused_fields)
  have b: "dependencies (manifest (heap demo_focused 0)) = [demo_entry ''c'']"
    by (simp add: demo_focused_fields demo_heap_def)
  have k: "cwd (heap demo_focused 0) = ''/'' \<and> locator_identHash (heap demo_focused 0) = ''root''"
    by (simp add: demo_focused_fields demo_heap_def)
  from root_is_retained [OF h, of False] top h n b k demo_focused_consistent
  show ?thesis by simp
qed

text \<open>
  C6. The required set is exactly the set of workspaces reachable from the seed along
  hard edges, which are read from \<^verbatim>\<open>dependencies\<close> and \<^verbatim>\<open>devDependencies\<close> only:
  emptying every \<^verbatim>\<open>peerDependencies\<close> scope beforehand gives the same required set.
  The eviction nevertheless empties the \<^verbatim>\<open>peerDependencies\<close> of every workspace of
  the project that is not required.
\<close>

theorem peer_edges_never_expand:
  "set (requiredWorkspaces (closure_loop s 0))
     = reach (hard_edge s) (set (requiredWorkspaces s)) \<and>
   set (requiredWorkspaces (closure_loop (without_peers s) 0))
     = set (requiredWorkspaces (closure_loop s 0)) \<and>
   (\<forall>w \<in> set (workspaces s). w \<notin> set (requiredWorkspaces s)
      \<longrightarrow> peerDependencies (manifest (heap (evict pr s) w)) = [])"
proof -
  have char: "set (requiredWorkspaces (closure_loop s 0))
      = reach (hard_edge s) (set (requiredWorkspaces s))" for s
  proof
    show "set (requiredWorkspaces (closure_loop s 0))
        \<subseteq> reach (hard_edge s) (set (requiredWorkspaces s))"
      by (rule closure_loop_sound) (auto intro: reach.seed)
  next
    obtain ys where ys: "requiredWorkspaces (closure_loop s 0) = requiredWorkspaces s @ ys"
      using closure_loop_prefix by blast
    have cl: "\<forall>v \<in> set (requiredWorkspaces (closure_loop s 0)).
          \<forall>m. hard_edge s v m \<longrightarrow> m \<in> set (requiredWorkspaces (closure_loop s 0))"
      by (rule closure_loop_closed) simp
    show "reach (hard_edge s) (set (requiredWorkspaces s))
        \<subseteq> set (requiredWorkspaces (closure_loop s 0))"
    proof
      fix w
      assume "w \<in> reach (hard_edge s) (set (requiredWorkspaces s))"
      then show "w \<in> set (requiredWorkspaces (closure_loop s 0))"
      proof (induction rule: reach.induct)
        case (seed w)
        then show ?case by (simp add: ys)
      next
        case (step v w)
        with cl show ?case by blast
      qed
    qed
  qed
  have "hard_edge (without_peers s) = hard_edge s"
    by (simp add: fun_eq_iff hard_edge_def hard_descriptors_def tryWorkspaceByDescriptor_def
        without_peers_def)
  moreover have "requiredWorkspaces (without_peers s) = requiredWorkspaces s"
    by (simp add: without_peers_def)
  ultimately have "set (requiredWorkspaces (closure_loop (without_peers s) 0))
     = set (requiredWorkspaces (closure_loop s 0))"
    by (simp add: char)
  moreover have "\<forall>w \<in> set (workspaces s). w \<notin> set (requiredWorkspaces s)
      \<longrightarrow> peerDependencies (manifest (heap (evict pr s) w)) = []"
    by (simp add: evict_heap prune_def)
  ultimately show ?thesis using char [of s] by blast
qed

theorem peer_edges_never_expand_witness:
  "demo_entry ''c'' \<in> set (peerDependencies (manifest (heap demo 1))) \<and>
   tryWorkspaceByDescriptor demo (snd (demo_entry ''c'')) = Some 3 \<and>
   1 \<in> set (requiredWorkspaces demo) \<and>
   3 \<notin> reach (hard_edge demo) (set (requiredWorkspaces demo)) \<and>
   3 \<in> set (workspaces demo) \<and> 3 \<notin> set (requiredWorkspaces demo) \<and>
   peerDependencies (manifest (heap (evict False demo) 3)) = []"
proof -
  note t = peer_edges_never_expand [of demo False]
  have "reach (hard_edge demo) (set (requiredWorkspaces demo)) = set [1, 2, 4]"
    using t [THEN conjunct1, symmetric] by (simp only: demo_closure)
  then have "3 \<notin> reach (hard_edge demo) (set (requiredWorkspaces demo))"
    by simp
  moreover have m: "3 \<in> set (workspaces demo) \<and> 3 \<notin> set (requiredWorkspaces demo)"
    by (simp add: demo_def)
  moreover from t m have "peerDependencies (manifest (heap (evict False demo) 3)) = []"
    by blast
  moreover have "demo_entry ''c'' \<in> set (peerDependencies (manifest (heap demo 1)))"
    by (simp add: demo_defs)
  moreover have "tryWorkspaceByDescriptor demo (snd (demo_entry ''c'')) = Some 3"
    by (simp add: tryWorkspaceByDescriptor_def demo_defs)
  moreover have "1 \<in> set (requiredWorkspaces demo)" by (simp add: demo_def)
  ultimately show ?thesis by blast
qed

text \<open>
  C7. With the flag \<^verbatim>\<open>--all\<close> the seed is the set of the workspaces of the ordered
  list. Without it and with names, the seed is the set of the workspaces the names
  resolve to when all of them resolve, and the error \<open>UnknownWorkspace\<close> of a name
  that does not resolve otherwise. Without it and without names, the seed is the active
  workspace alone, and the error \<open>WorkspaceRequiredError\<close> (the spec's
  \<open>NoActiveWorkspace\<close>) when there is none. Whenever the selection fails, the command
  returns that error, the state it was given, and has called nothing.
\<close>

theorem seed_selection:
  "(all cmd \<longrightarrow>
      (\<exists>seed. select_seed ext cmd active s = Inr seed \<and> set seed = set (workspaces s))) \<and>
   (\<not> all cmd \<and> cmd_workspaces cmd \<noteq> [] \<and>
      (\<forall>n \<in> set (cmd_workspaces cmd).
         map_of (workspacesByIdent s) (parseIdent ext n) \<noteq> None) \<longrightarrow>
      (\<exists>seed. select_seed ext cmd active s = Inr seed \<and>
         set seed = {w. \<exists>n \<in> set (cmd_workspaces cmd).
                       map_of (workspacesByIdent s) (parseIdent ext n) = Some w})) \<and>
   (\<not> all cmd \<and> cmd_workspaces cmd \<noteq> [] \<and>
      (\<exists>n \<in> set (cmd_workspaces cmd).
         map_of (workspacesByIdent s) (parseIdent ext n) = None) \<longrightarrow>
      (\<exists>n \<in> set (cmd_workspaces cmd).
         map_of (workspacesByIdent s) (parseIdent ext n) = None \<and>
         select_seed ext cmd active s = Inl (UnknownWorkspace (parseIdent ext n)))) \<and>
   (\<not> all cmd \<and> cmd_workspaces cmd = [] \<longrightarrow>
      (\<forall>w. active = Some w \<longrightarrow> select_seed ext cmd active s = Inr [w]) \<and>
      (active = None \<longrightarrow> select_seed ext cmd active s = Inl WorkspaceRequiredError)) \<and>
   (\<forall>e. select_seed ext cmd active s = Inl e \<longrightarrow>
      execute ext cmd active s = (Inl e, s, []))"
proof (intro conjI impI allI)
  assume "all cmd"
  then show "\<exists>seed. select_seed ext cmd active s = Inr seed \<and> set seed = set (workspaces s)"
    by (simp add: select_seed_def)
next
  assume a: "\<not> all cmd \<and> cmd_workspaces cmd \<noteq> [] \<and>
      (\<forall>n \<in> set (cmd_workspaces cmd).
         map_of (workspacesByIdent s) (parseIdent ext n) \<noteq> None)"
  then have "select_seed ext cmd active s
      = Inr (new_Set (map (\<lambda>n. the (map_of (workspacesByIdent s) (parseIdent ext n)))
               (cmd_workspaces cmd)))"
    by (simp add: select_seed_def resolve_names_ok)
  moreover have "set (map (\<lambda>n. the (map_of (workspacesByIdent s) (parseIdent ext n)))
               (cmd_workspaces cmd))
      = {w. \<exists>n \<in> set (cmd_workspaces cmd).
                       map_of (workspacesByIdent s) (parseIdent ext n) = Some w}"
    using a by force
  ultimately show "\<exists>seed. select_seed ext cmd active s = Inr seed \<and>
         set seed = {w. \<exists>n \<in> set (cmd_workspaces cmd).
                       map_of (workspacesByIdent s) (parseIdent ext n) = Some w}"
    by simp
next
  assume a: "\<not> all cmd \<and> cmd_workspaces cmd \<noteq> [] \<and>
      (\<exists>n \<in> set (cmd_workspaces cmd).
         map_of (workspacesByIdent s) (parseIdent ext n) = None)"
  then obtain n where "n \<in> set (cmd_workspaces cmd)"
    "map_of (workspacesByIdent s) (parseIdent ext n) = None"
    "resolve_names ext s (cmd_workspaces cmd) = Inl (UnknownWorkspace (parseIdent ext n))"
    using resolve_names_fail [of "cmd_workspaces cmd" s ext] by blast
  with a show "\<exists>n \<in> set (cmd_workspaces cmd).
         map_of (workspacesByIdent s) (parseIdent ext n) = None \<and>
         select_seed ext cmd active s = Inl (UnknownWorkspace (parseIdent ext n))"
    by (auto simp: select_seed_def)
next
  fix w
  assume "\<not> all cmd \<and> cmd_workspaces cmd = []" and "active = Some w"
  then show "select_seed ext cmd active s = Inr [w]"
    by (simp add: select_seed_def new_Set_def set_add_def)
next
  assume "\<not> all cmd \<and> cmd_workspaces cmd = []" and "active = None"
  then show "select_seed ext cmd active s = Inl WorkspaceRequiredError"
    by (simp add: select_seed_def)
next
  fix e
  assume "select_seed ext cmd active s = Inl e"
  then show "execute ext cmd active s = (Inl e, s, [])"
    by (simp add: execute_def)
qed

theorem seed_selection_witness:
  "select_seed (demo_ext None) (demo_cmd [''a'', ''nope''] False) (Some 1) demo
     = Inl (UnknownWorkspace ''nope'') \<and>
   execute (demo_ext None) (demo_cmd [''a'', ''nope''] False) (Some 1) demo
     = (Inl (UnknownWorkspace ''nope''), demo, []) \<and>
   select_seed (demo_ext None) (demo_cmd [] False) None demo = Inl WorkspaceRequiredError \<and>
   execute (demo_ext None) (demo_cmd [] False) None demo
     = (Inl WorkspaceRequiredError, demo, []) \<and>
   select_seed (demo_ext None) (demo_cmd [] False) (Some 1) demo = Inr [1] \<and>
   select_seed (demo_ext None) (demo_cmd [''b'', ''a'', ''b''] False) None demo = Inr [2, 1] \<and>
   select_seed (demo_ext None) (demo_cmd [] True) None demo = Inr [0, 1, 2, 3, 4]"
proof -
  let ?e = "demo_ext None"
  have u: "select_seed ?e (demo_cmd [''a'', ''nope''] False) (Some 1) demo
      = Inl (UnknownWorkspace ''nope'')"
    by (simp add: select_seed_def demo_cmd_def demo_ext_def getWorkspaceByIdent_def demo_def)
  from u seed_selection [of "demo_cmd [''a'', ''nope''] False" ?e "Some 1" demo]
  have u': "execute ?e (demo_cmd [''a'', ''nope''] False) (Some 1) demo
      = (Inl (UnknownWorkspace ''nope''), demo, [])" by blast
  have c: "\<not> all (demo_cmd [] False) \<and> cmd_workspaces (demo_cmd [] False) = []"
    by (simp add: demo_cmd_def)
  from c seed_selection [of "demo_cmd [] False" ?e None demo]
  have n: "select_seed ?e (demo_cmd [] False) None demo = Inl WorkspaceRequiredError" by blast
  from n seed_selection [of "demo_cmd [] False" ?e None demo]
  have n': "execute ?e (demo_cmd [] False) None demo = (Inl WorkspaceRequiredError, demo, [])"
    by blast
  from c seed_selection [of "demo_cmd [] False" ?e "Some 1" demo]
  have a: "select_seed ?e (demo_cmd [] False) (Some 1) demo = Inr [1]" by blast
  have b: "select_seed ?e (demo_cmd [''b'', ''a'', ''b''] False) None demo = Inr [2, 1]"
    by (simp add: select_seed_def demo_cmd_def demo_ext_def getWorkspaceByIdent_def demo_def
        new_Set_def set_add_def)
  have d: "select_seed ?e (demo_cmd [] True) None demo = Inr [0, 1, 2, 3, 4]"
    by (simp add: select_seed_def demo_cmd_def demo_def new_Set_def set_add_def)
  from u u' n n' a b d show ?thesis by blast
qed

text \<open>
  C8. The eviction keeps the required set, and a second eviction with it changes neither
  the ordered list, nor an index, nor a workspace object.
\<close>

theorem evict_idempotent:
  "requiredWorkspaces (evict pr s) = requiredWorkspaces s \<and>
   workspaces (evict pr (evict pr s)) = workspaces (evict pr s) \<and>
   workspacesByCwd (evict pr (evict pr s)) = workspacesByCwd (evict pr s) \<and>
   workspacesByIdent (evict pr (evict pr s)) = workspacesByIdent (evict pr s) \<and>
   topLevelWorkspace (evict pr (evict pr s)) = topLevelWorkspace (evict pr s) \<and>
   heap (evict pr (evict pr s)) = heap (evict pr s)"
proof -
  have ev: "evictable (evict pr s) = evictable s"
    by (simp add: fun_eq_iff evictable_def)
  have none: "{w \<in> set (workspaces (evict pr s)). evictable s w} = {}"
    by (auto simp: evict_workspaces)
  have ws: "workspaces (evict pr (evict pr s)) = workspaces (evict pr s)"
    by (simp add: evict_workspaces [of pr "evict pr s"] ev) (simp add: evict_workspaces)
  have c: "workspacesByCwd (evict pr (evict pr s)) = workspacesByCwd (evict pr s)"
    by (simp add: evict_byCwd [of pr "evict pr s"] ev none)
  have i: "workspacesByIdent (evict pr (evict pr s)) = workspacesByIdent (evict pr s)"
    by (simp add: evict_byIdent [of pr "evict pr s"] ev none)
  have h: "heap (evict pr (evict pr s)) = heap (evict pr s)"
  proof
    fix w
    show "heap (evict pr (evict pr s)) w = heap (evict pr s) w"
      by (simp add: evict_heap [of pr "evict pr s"] evict_workspaces)
        (simp add: evict_heap prune_idem)
  qed
  from ws c i h show ?thesis by simp
qed

theorem evict_idempotent_witness:
  "workspaces demo_focused = [0, 1, 2, 3, 4] \<and>
   workspaces (evict False demo_focused) = [0, 1, 2, 4] \<and>
   workspaces (evict False (evict False demo_focused)) = [0, 1, 2, 4] \<and>
   heap (evict False (evict False demo_focused)) = heap (evict False demo_focused)"
  using evict_idempotent [of False demo_focused]
  by (simp add: demo_evict_workspaces demo_focused_fields)

text \<open>
  C9. The closure loop writes nothing but the set \<^verbatim>\<open>requiredWorkspaces\<close>: at any
  position of the iterator, the ordered list, both indexes, the root and every workspace
  object (hence every manifest scope) are at the end of the loop what they were at its
  start; and a descriptor that resolves to no workspace changes nothing at all.
\<close>

theorem closure_loop_read_only:
  "workspaces (closure_loop s i) = workspaces s \<and>
   workspacesByCwd (closure_loop s i) = workspacesByCwd s \<and>
   workspacesByIdent (closure_loop s i) = workspacesByIdent s \<and>
   topLevelWorkspace (closure_loop s i) = topLevelWorkspace s \<and>
   heap (closure_loop s i) = heap s \<and>
   (tryWorkspaceByDescriptor s d = None \<longrightarrow> scan_descriptor s d = s)"
  using closure_loop_frame [of s i] by (simp add: scan_descriptor_def)

theorem closure_loop_read_only_witness:
  "tryWorkspaceByDescriptor demo (snd (demo_entry ''lodash'')) = None \<and>
   scan_descriptor demo (snd (demo_entry ''lodash'')) = demo \<and>
   workspaces (closure_loop demo 0) = [0, 1, 2, 3, 4] \<and>
   heap (closure_loop demo 0) = demo_heap"
proof -
  have n: "tryWorkspaceByDescriptor demo (snd (demo_entry ''lodash'')) = None"
    by (simp add: tryWorkspaceByDescriptor_def demo_defs)
  with closure_loop_read_only [of demo 0 "snd (demo_entry ''lodash'')"]
  show ?thesis by (simp add: demo_def)
qed

text \<open>
  C10. The closure loop is a total function: its measure, the workspaces of the
  identity index not yet required plus the required workspaces not yet scanned, falls
  in every round. When the seed is a set of workspaces of the project and the identity
  index holds workspaces of the project only, the workspaces scanned are, in order, the
  members of the final required set: each is scanned once, none is inserted twice, all
  belong to the project, and the rounds are at most as many as the project's workspaces.
\<close>

theorem closure_loop_scans_bounded:
  assumes "distinct (requiredWorkspaces s)"
    and "set (requiredWorkspaces s) \<subseteq> set (workspaces s)"
    and "snd ` set (workspacesByIdent s) \<subseteq> set (workspaces s)"
  shows "closure_scans s 0 = requiredWorkspaces (closure_loop s 0) \<and>
         distinct (closure_scans s 0) \<and>
         set (closure_scans s 0) \<subseteq> set (workspaces s) \<and>
         length (closure_scans s 0) \<le> card (set (workspaces s))"
proof -
  have eq: "closure_scans s 0 = requiredWorkspaces (closure_loop s 0)"
    by (simp add: closure_scans_drop)
  have d: "distinct (closure_scans s 0)"
    using assms(1) by (simp add: eq closure_loop_distinct)
  have sub: "set (closure_scans s 0) \<subseteq> set (workspaces s)"
    using closure_loop_bound [of s 0] assms(2,3) by (auto simp: eq)
  have "length (closure_scans s 0) = card (set (closure_scans s 0))"
    using d by (simp add: distinct_card)
  also have "\<dots> \<le> card (set (workspaces s))"
    using sub by (simp add: card_mono)
  finally show ?thesis using eq d sub by simp
qed

theorem closure_loop_scans_bounded_witness:
  "distinct (requiredWorkspaces demo) \<and>
   set (requiredWorkspaces demo) \<subseteq> set (workspaces demo) \<and>
   snd ` set (workspacesByIdent demo) \<subseteq> set (workspaces demo) \<and>
   closure_scans demo 0 = [1, 2, 4] \<and>
   length (closure_scans demo 0) \<le> card (set (workspaces demo))"
proof -
  have h1: "distinct (requiredWorkspaces demo)" by (simp add: demo_def)
  have h2: "set (requiredWorkspaces demo) \<subseteq> set (workspaces demo)" by (simp add: demo_def)
  have h3: "snd ` set (workspacesByIdent demo) \<subseteq> set (workspaces demo)"
    by (simp add: demo_def)
  note t = closure_loop_scans_bounded [OF h1 h2 h3]
  from t have "closure_scans demo 0 = [1, 2, 4]" by (simp only: demo_closure)
  moreover from t have "length (closure_scans demo 0) \<le> card (set (workspaces demo))"
    by blast
  ultimately show ?thesis using h1 h2 h3 by blast
qed

end
